theory Spec2Isabelle
  imports Complex_Main "HOL-Library.Word"
begin

section \<open>Numeric model\<close>

text \<open>
  The notebook \<^verbatim>\<open>presentation.ipynb\<close> works on NumPy \<^verbatim>\<open>float32\<close> arrays. A finite
  float is modelled by the real number it denotes, and an operation of the quantizer
  rounds its exact result to the nearest \<^verbatim>\<open>float32\<close> value, a tie going to the even
  significand, with overflow to an infinity and gradual underflow. What NumPy produces
  from a division by zero (an infinity or a NaN, with a warning and no exception) is
  modelled too. The input matrix holds finite \<^verbatim>\<open>float32\<close> values; a matrix is the list of
  its rows.
  The dot products and distances of the vector and product quantization are computed
  on the real numbers: what is stated about them is stated up to the order of a
  floating-point summation.
\<close>

datatype py_error = ValueError | IndexError | OverflowError

datatype npfloat = Fin real | PosInf | NegInf | NaN

text \<open>\<^verbatim>\<open>np.round\<close> rounds to the nearest integer and a half to the even neighbour.\<close>

definition round_half_even :: "real \<Rightarrow> int" where
  "round_half_even r =
     (let f = \<lfloor>r\<rfloor>; d = r - of_int f
      in if d < 1 / 2 then f
         else if 1 / 2 < d then f + 1
         else if even f then f else f + 1)"

text \<open>
  The exponent that \<^verbatim>\<open>float32\<close> gives to a magnitude \<open>a\<close>: the largest \<open>e\<close> from 127
  down to -126 with \<open>2 ^ e \<le> a\<close>, and -126 (the subnormal range) if there is none.
\<close>

fun expo_search :: "nat \<Rightarrow> real \<Rightarrow> int" where
  "expo_search 0 a = - 126"
| "expo_search (Suc n) a =
     (if 2 powi (int n - 126) \<le> a then int n - 126 else expo_search n a)"

definition expo32 :: "real \<Rightarrow> int" where
  "expo32 a = expo_search 254 a"

text \<open>
  Rounding to 24 significant bits at that exponent: the nearest multiple of
  \<open>2 ^ (e - 23)\<close>. \<open>fl32\<close> is the \<^verbatim>\<open>float32\<close> result of an operation whose exact result
  is \<open>r\<close>.
\<close>

definition rne32 :: "real \<Rightarrow> real" where
  "rne32 r = (let ulp = 2 powi (expo32 \<bar>r\<bar> - 23) in of_int (round_half_even (r / ulp)) * ulp)"

definition fl32 :: "real \<Rightarrow> npfloat" where
  "fl32 r =
     (let v = rne32 r
      in if 2 ^ 128 \<le> v then PosInf else if v \<le> - (2 ^ 128) then NegInf else Fin v)"

text \<open>
  A Python number: \<^verbatim>\<open>2**(num_bits - 1) - 1\<close> is an \<^verbatim>\<open>int\<close> when the exponent is not
  negative and a \<^verbatim>\<open>float\<close> otherwise, and \<^verbatim>\<open>np.clip\<close> of an \<^verbatim>\<open>int8\<close> array gives an
  integer array for integer bounds and a float array for float bounds.
\<close>

datatype pynum = PyInt int | PyFloat real

fun pynum_val :: "pynum \<Rightarrow> real" where
  "pynum_val (PyInt k) = of_int k"
| "pynum_val (PyFloat r) = r"

fun py_neg :: "pynum \<Rightarrow> pynum" where
  "py_neg (PyInt k) = PyInt (- k)"
| "py_neg (PyFloat r) = PyFloat (- r)"

text \<open>
  Python converts an \<^verbatim>\<open>int\<close> to a \<^verbatim>\<open>float\<close> by rounding to the nearest double and
  raises \<^verbatim>\<open>OverflowError\<close> when that is beyond the largest double, which is from
  \<open>2 ^ 1024 - 2 ^ 970\<close> on.
\<close>

definition py_int_overflows :: "int \<Rightarrow> bool" where
  "py_int_overflows k \<longleftrightarrow> 2 ^ 1024 - 2 ^ 970 \<le> \<bar>k\<bar>"

text \<open>
  \<^verbatim>\<open>2 ** e\<close> for a Python int \<^verbatim>\<open>e\<close>. A negative exponent is computed on floats: the
  conversion of \<open>e\<close> can overflow, and the power is 0.0 below the smallest subnormal
  double \<open>2 ^ -1074\<close>.
\<close>

definition py_pow2 :: "int \<Rightarrow> py_error + pynum" where
  "py_pow2 e =
     (if 0 \<le> e then Inr (PyInt (2 ^ nat e))
      else if py_int_overflows e then Inl OverflowError
      else if e < - 1074 then Inr (PyFloat 0)
      else Inr (PyFloat (2 powi e)))"

text \<open>
  \<^verbatim>\<open>p - 1\<close>. For a float \<open>0 \<le> r \<le> 1/2\<close>, the only floats that \<open>py_pow2\<close> gives, the
  difference lies between -1 and -1/2, where the doubles are the multiples of
  \<open>2 ^ -53\<close>.
\<close>

fun py_pred :: "pynum \<Rightarrow> pynum" where
  "py_pred (PyInt k) = PyInt (k - 1)"
| "py_pred (PyFloat r) = PyFloat (of_int (round_half_even ((r - 1) * 2 ^ 53)) / 2 ^ 53)"

text \<open>\<^verbatim>\<open>qmax = 2**(num_bits - 1) - 1\<close>\<close>

definition qmax_of :: "int \<Rightarrow> py_error + pynum" where
  "qmax_of num_bits =
     (case py_pow2 (num_bits - 1) of Inl e \<Rightarrow> Inl e | Inr p \<Rightarrow> Inr (py_pred p))"

text \<open>
  A Python number as the \<^verbatim>\<open>float32\<close> operand of a NumPy operation: an \<^verbatim>\<open>int\<close> goes
  through Python's conversion to a float. (An int \<open>2 ^ n - 1\<close> has the same
  \<^verbatim>\<open>float32\<close> value with and without the intermediate double.)
\<close>

fun as_float32 :: "pynum \<Rightarrow> py_error + npfloat" where
  "as_float32 (PyInt k) =
     (if py_int_overflows k then Inl OverflowError else Inr (fl32 (of_int k)))"
| "as_float32 (PyFloat r) = Inr (fl32 r)"

text \<open>
  \<^verbatim>\<open>a / s\<close> in \<^verbatim>\<open>float32\<close> for a finite \<^verbatim>\<open>a\<close>: a zero divisor gives NaN for \<^verbatim>\<open>0 / 0\<close> and an
  infinity otherwise (the sign of a zero divisor is not modelled: in
  \<^verbatim>\<open>quantize_symmetric\<close> a negative zero arises only as the scale of an all-zero matrix,
  where every dividend is zero); an infinite divisor gives zero.
\<close>

fun np_divide :: "real \<Rightarrow> npfloat \<Rightarrow> npfloat" where
  "np_divide a (Fin s) =
     (if s \<noteq> 0 then fl32 (a / s)
      else if a = 0 then NaN
      else if 0 < a then PosInf else NegInf)"
| "np_divide a PosInf = Fin 0"
| "np_divide a NegInf = Fin 0"
| "np_divide a NaN = NaN"

text \<open>\<^verbatim>\<open>max_val / qmax\<close>, a \<^verbatim>\<open>float32\<close> scalar divided by a Python number.\<close>

definition np_scalar_divide :: "real \<Rightarrow> pynum \<Rightarrow> py_error + npfloat" where
  "np_scalar_divide a p =
     (case as_float32 p of Inl e \<Rightarrow> Inl e | Inr d \<Rightarrow> Inr (np_divide a d))"

text \<open>\<^verbatim>\<open>c * s\<close> in \<^verbatim>\<open>float32\<close> for a finite \<^verbatim>\<open>c\<close>.\<close>

fun np_multiply :: "real \<Rightarrow> npfloat \<Rightarrow> npfloat" where
  "np_multiply c (Fin s) = fl32 (c * s)"
| "np_multiply c PosInf = (if c = 0 then NaN else if 0 < c then PosInf else NegInf)"
| "np_multiply c NegInf = (if c = 0 then NaN else if 0 < c then NegInf else PosInf)"
| "np_multiply c NaN = NaN"

fun np_round :: "npfloat \<Rightarrow> npfloat" where
  "np_round (Fin r) = Fin (of_int (round_half_even r))"
| "np_round v = v"

text \<open>
  \<^verbatim>\<open>.astype(np.int8)\<close> truncates towards zero. The conversion of a value whose
  truncation is not an \<^verbatim>\<open>int8\<close>, of an infinity and of NaN is left to the platform by
  NumPy (and by C): it is the parameter \<open>cast\<close>. Whatever the platform does, the result
  is an \<^verbatim>\<open>int8\<close>.
\<close>

definition c_trunc :: "real \<Rightarrow> int" where
  "c_trunc r = (if 0 \<le> r then \<lfloor>r\<rfloor> else \<lceil>r\<rceil>)"

fun astype_int8 :: "(npfloat \<Rightarrow> 8 word) \<Rightarrow> npfloat \<Rightarrow> 8 word" where
  "astype_int8 cast (Fin r) =
     (if - 128 \<le> c_trunc r \<and> c_trunc r \<le> 127 then word_of_int (c_trunc r)
      else cast (Fin r))"
| "astype_int8 cast v = cast v"

text \<open>
  The conversion as x86-64 builds perform it, used to evaluate examples: the value is
  truncated to a 32-bit integer, of which the low byte is kept; NaN, the infinities and
  values beyond 32 bits give the integer \<^verbatim>\<open>0x80000000\<close>, whose low byte is zero.
\<close>

fun cast_x86 :: "npfloat \<Rightarrow> 8 word" where
  "cast_x86 (Fin r) =
     (if - (2 ^ 31) \<le> c_trunc r \<and> c_trunc r < 2 ^ 31 then word_of_int (c_trunc r) else 0)"
| "cast_x86 v = 0"

text \<open>
  \<^verbatim>\<open>np.clip(q, lo, hi)\<close> on one \<^verbatim>\<open>int8\<close> entry \<open>q\<close> is
  \<^verbatim>\<open>minimum(maximum(q, lo), hi)\<close>, also where \<open>hi < lo\<close>. Integer bounds beyond the
  \<^verbatim>\<open>int8\<close> range do not change an entry, so the integer case is computed on \<open>int\<close>.
\<close>

fun np_clip :: "int \<Rightarrow> pynum \<Rightarrow> pynum \<Rightarrow> pynum" where
  "np_clip q (PyInt lo) (PyInt hi) = PyInt (min (max q lo) hi)"
| "np_clip q lo hi = PyFloat (min (max (of_int q) (pynum_val lo)) (pynum_val hi))"

section \<open>Symmetric uniform quantization\<close>

text \<open>
  \<^verbatim>\<open>np.max(np.abs(x))\<close>: the reduction raises \<^verbatim>\<open>ValueError\<close> on an array without
  elements.
\<close>

definition np_max_abs :: "real list list \<Rightarrow> py_error + real" where
  "np_max_abs x =
     (case concat x of
        [] \<Rightarrow> Inl ValueError
      | y # ys \<Rightarrow> Inr (fold max (map abs ys) \<bar>y\<bar>))"

text \<open>\<^verbatim>\<open>np.round(x / scale).astype(np.int8)\<close>, the codes before the clip.\<close>

definition rounded_int8 ::
  "(npfloat \<Rightarrow> 8 word) \<Rightarrow> real list list \<Rightarrow> npfloat \<Rightarrow> 8 word list list" where
  "rounded_int8 cast x scale =
     map (map (\<lambda>v. astype_int8 cast (np_round (np_divide v scale)))) x"

text \<open>
  \<^verbatim>\<open>
  def quantize_symmetric(x, num_bits):
      max_val = np.max(np.abs(x))
      qmax = 2**(num_bits - 1) - 1
      scale = max_val / qmax
      q = np.round(x / scale).astype(np.int8)
      q = np.clip(q, -qmax, qmax)
      return q, scale
  \<close>
  The three statements that can raise do so in this order.
\<close>

definition quantize_symmetric ::
  "(npfloat \<Rightarrow> 8 word) \<Rightarrow> real list list \<Rightarrow> int \<Rightarrow> py_error + (pynum list list \<times> npfloat)" where
  "quantize_symmetric cast x num_bits =
     (case np_max_abs x of
        Inl e \<Rightarrow> Inl e
      | Inr max_val \<Rightarrow>
          (case qmax_of num_bits of
             Inl e \<Rightarrow> Inl e
           | Inr qmax \<Rightarrow>
               (case np_scalar_divide max_val qmax of
                  Inl e \<Rightarrow> Inl e
                | Inr scale \<Rightarrow>
                    (let q = rounded_int8 cast x scale
                     in Inr (map (map (\<lambda>w. np_clip (sint w) (py_neg qmax) qmax)) q, scale)))))"

text \<open>
  \<^verbatim>\<open>
  def dequantize_symmetric(q, scale):
      return q.astype(np.float32) * scale
  \<close>
  The codes are \<^verbatim>\<open>int8\<close> values or floats between -1 and 0, so their conversion to
  \<^verbatim>\<open>float32\<close> is finite.
\<close>

definition dequantize_symmetric :: "pynum list list \<Rightarrow> npfloat \<Rightarrow> npfloat list list" where
  "dequantize_symmetric q scale = map (map (\<lambda>c. np_multiply (rne32 (pynum_val c)) scale)) q"

text \<open>\<^verbatim>\<open>create_sample_matrix\<close>: the literals become \<^verbatim>\<open>float32\<close> values.\<close>

definition create_sample_matrix :: "real list list" where
  "create_sample_matrix =
     map (map rne32)
       [[0.1, -0.5, 0.0, 1.0],
        [2.5, -1.2, 0.7, -0.3],
        [0.9, 1.5, -2.0, 0.2]]"

section \<open>Arrays, indexing and errors\<close>

text \<open>
  A list comprehension or a loop whose body can raise: the first error ends it.
\<close>

fun collect :: "(py_error + 'a) list \<Rightarrow> py_error + 'a list" where
  "collect [] = Inr []"
| "collect (r # rs) =
     (case r of
        Inl e \<Rightarrow> Inl e
      | Inr v \<Rightarrow> (case collect rs of Inl e \<Rightarrow> Inl e | Inr vs \<Rightarrow> Inr (v # vs)))"

definition bind_err :: "py_error + 'a \<Rightarrow> ('a \<Rightarrow> py_error + 'b) \<Rightarrow> py_error + 'b" where
  "bind_err r f = (case r of Inl e \<Rightarrow> Inl e | Inr v \<Rightarrow> f v)"

text \<open>
  \<^verbatim>\<open>xs[i]\<close>: a negative index counts from the end, an index out of range raises
  \<^verbatim>\<open>IndexError\<close>.
\<close>

definition py_index :: "'a list \<Rightarrow> int \<Rightarrow> py_error + 'a" where
  "py_index xs i =
     (if 0 \<le> i \<and> i < int (length xs) then Inr (xs ! nat i)
      else if i < 0 \<and> - int (length xs) \<le> i then Inr (xs ! nat (i + int (length xs)))
      else Inl IndexError)"

text \<open>\<^verbatim>\<open>xs[a:b]\<close> for bounds that are not negative: the slice stops at the end of \<open>xs\<close>.\<close>

definition py_slice :: "'a list \<Rightarrow> nat \<Rightarrow> nat \<Rightarrow> 'a list" where
  "py_slice xs a b = take (b - a) (drop a xs)"

text \<open>\<^verbatim>\<open>np.dot\<close> of two vectors; the lengths must agree.\<close>

definition dot_sum :: "real list \<Rightarrow> real list \<Rightarrow> real" where
  "dot_sum xs ys = sum_list (map2 (*) xs ys)"

definition np_dot :: "real list \<Rightarrow> real list \<Rightarrow> py_error + real" where
  "np_dot xs ys = (if length xs = length ys then Inr (dot_sum xs ys) else Inl ValueError)"

text \<open>
  \<^verbatim>\<open>np.dot(v, C.T)\<close> for a vector \<open>v\<close> and a matrix \<open>C\<close> given by its rows: one dot
  product per row, each row as long as \<open>v\<close>.
\<close>

definition np_dot_T :: "real list \<Rightarrow> real list list \<Rightarrow> py_error + real list" where
  "np_dot_T v C =
     (if list_all (\<lambda>c. length c = length v) C then Inr (map (dot_sum v) C)
      else Inl ValueError)"

text \<open>\<^verbatim>\<open>A[col]\<close> for an index array \<open>col\<close>: the rows of \<open>A\<close> at these indices.\<close>

definition gather :: "'a list \<Rightarrow> int list \<Rightarrow> py_error + 'a list" where
  "gather A col = collect (map (py_index A) col)"

text \<open>\<^verbatim>\<open>A[:, i]\<close>, column \<open>i\<close> of a matrix.\<close>

definition column :: "'a list list \<Rightarrow> nat \<Rightarrow> py_error + 'a list" where
  "column A i = collect (map (\<lambda>row. py_index row (int i)) A)"

text \<open>
  \<^verbatim>\<open>np.hstack(blocks)\<close> for matrices with the same number of rows: row \<open>r\<close> of the result
  is the concatenation of the rows \<open>r\<close> of the blocks. An empty list of blocks and blocks
  of different heights raise \<^verbatim>\<open>ValueError\<close>.
\<close>

definition np_hstack :: "'a list list list \<Rightarrow> py_error + 'a list list" where
  "np_hstack blocks =
     (case blocks of
        [] \<Rightarrow> Inl ValueError
      | b # bs \<Rightarrow>
          if list_all (\<lambda>b'. length b' = length b) bs
          then Inr (map (\<lambda>r. concat (map (\<lambda>b'. b' ! r) blocks)) [0..<length b])
          else Inl ValueError)"

text \<open>
  \<^verbatim>\<open>np.stack(cols, axis=1)\<close> for vectors of the same length: entry \<open>(r, i)\<close> of the result
  is entry \<open>r\<close> of vector \<open>i\<close>.
\<close>

definition np_stack_axis1 :: "'a list list \<Rightarrow> py_error + 'a list list" where
  "np_stack_axis1 cols =
     (case cols of
        [] \<Rightarrow> Inl ValueError
      | c # cs \<Rightarrow>
          if list_all (\<lambda>c'. length c' = length c) cs
          then Inr (map (\<lambda>r. map (\<lambda>c'. c' ! r) cols) [0..<length c])
          else Inl ValueError)"

text \<open>
  \<^verbatim>\<open>data.shape\<close> of a matrix given by its rows, and \<^verbatim>\<open>flat.reshape(shape)\<close>, which
  raises \<^verbatim>\<open>ValueError\<close> unless the sizes agree.
\<close>

definition shape_of :: "'a list list \<Rightarrow> nat \<times> nat" where
  "shape_of A = (length A, case A of [] \<Rightarrow> 0 | r # _ \<Rightarrow> length r)"

definition np_reshape :: "'a list \<Rightarrow> nat \<times> nat \<Rightarrow> py_error + 'a list list" where
  "np_reshape flat shape =
     (case shape of (rows, cols) \<Rightarrow>
        if rows * cols = length flat
        then Inr (map (\<lambda>r. py_slice flat (r * cols) ((r + 1) * cols)) [0..<rows])
        else Inl ValueError)"

section \<open>Product quantization: lookup tables and reconstruction\<close>

text \<open>
  The notebook's globals \<^verbatim>\<open>n\<close>, \<^verbatim>\<open>M\<close> and \<^verbatim>\<open>sub_dim\<close> are parameters.
  \<^verbatim>\<open>
  query_subs = [query[i*sub_dim : (i+1)*sub_dim] for i in range(M)]
  lookup_tables = [np.dot(query_subs[i], codebooks[i].T) for i in range(M)]
  \<close>
\<close>

definition query_subs :: "nat \<Rightarrow> nat \<Rightarrow> real list \<Rightarrow> real list list" where
  "query_subs M sub_dim query =
     map (\<lambda>i. py_slice query (i * sub_dim) ((i + 1) * sub_dim)) [0..<M]"

definition lookup_tables ::
  "nat \<Rightarrow> nat \<Rightarrow> real list \<Rightarrow> real list list list \<Rightarrow> py_error + real list list" where
  "lookup_tables M sub_dim query codebooks =
     collect (map (\<lambda>i.
        bind_err (py_index (query_subs M sub_dim query) (int i)) (\<lambda>q.
        bind_err (py_index codebooks (int i)) (\<lambda>cb. np_dot_T q cb))) [0..<M])"

text \<open>
  \<^verbatim>\<open>
  for row_idx in range(n):
      dp = sum(lookup_tables[i][pq_codes[row_idx, i]] for i in range(M))
      dot_products.append(dp)
  \<close>
  Python's \<^verbatim>\<open>sum\<close> starts from 0 and adds from the left.
\<close>

definition approx_dot ::
  "nat \<Rightarrow> real list list \<Rightarrow> int list list \<Rightarrow> nat \<Rightarrow> py_error + real" where
  "approx_dot M tables pq_codes row_idx =
     bind_err
       (collect (map (\<lambda>i.
          bind_err (py_index tables (int i)) (\<lambda>t.
          bind_err (py_index pq_codes (int row_idx)) (\<lambda>row.
          bind_err (py_index row (int i)) (\<lambda>c. py_index t c)))) [0..<M]))
       (\<lambda>vs. Inr (foldl (+) 0 vs))"

definition dot_products ::
  "nat \<Rightarrow> nat \<Rightarrow> real list list \<Rightarrow> int list list \<Rightarrow> py_error + real list" where
  "dot_products n M tables pq_codes = collect (map (approx_dot M tables pq_codes) [0..<n])"

text \<open>
  \<^verbatim>\<open>
  reconstructed_pq = np.hstack([codebooks[i][pq_codes[:, i]] for i in range(M)])
  \<close>
\<close>

definition reconstructed_pq ::
  "nat \<Rightarrow> real list list list \<Rightarrow> int list list \<Rightarrow> py_error + real list list" where
  "reconstructed_pq M codebooks pq_codes =
     bind_err
       (collect (map (\<lambda>i.
          bind_err (py_index codebooks (int i)) (\<lambda>cb.
          bind_err (column pq_codes i) (\<lambda>col. gather cb col))) [0..<M]))
       np_hstack"

text \<open>
  Well-formed inputs of the lookup: every centroid has \<open>sub_dim\<close> components, and a row of
  codes has one index per codebook, each within that codebook.
\<close>

definition centroids_have_dim :: "nat \<Rightarrow> real list list list \<Rightarrow> bool" where
  "centroids_have_dim sub_dim codebooks = list_all (list_all (\<lambda>c. length c = sub_dim)) codebooks"

definition codes_in_range :: "real list list list \<Rightarrow> int list \<Rightarrow> bool" where
  "codes_in_range codebooks row =
     list_all2 (\<lambda>c cb. 0 \<le> c \<and> c < int (length cb)) row codebooks"

section \<open>Nearest-centroid assignment\<close>

text \<open>
  The notebook assigns samples to centroids with \<^verbatim>\<open>kmeans.predict\<close>, which is
  scikit-learn's \<^verbatim>\<open>KMeans.predict\<close> and not part of the notebook's source. The spec gives
  its contract as \<^verbatim>\<open>assign(sample, codebook) -> index\<close>: the index of the nearest centroid
  by L2 distance, a tie going to the lowest index; a codebook has at least one centroid,
  and its centroids have the dimension of the samples.
\<close>

text \<open>
  Modelled from the spec: the L2 distance between a sample and a centroid, which
  \<^verbatim>\<open>KMeans.predict\<close> (missing from the source) minimises, and its square.
\<close>

definition sq_dist :: "real list \<Rightarrow> real list \<Rightarrow> real" where
  "sq_dist x c = sum_list (map2 (\<lambda>a b. (a - b)\<^sup>2) x c)"

definition l2_dist :: "real list \<Rightarrow> real list \<Rightarrow> real" where
  "l2_dist x c = sqrt (sq_dist x c)"

text \<open>
  Modelled from the spec: the tie-break of the missing \<^verbatim>\<open>KMeans.predict\<close>, the first
  index at which a list of distances is least. On an empty list the value 0 means
  nothing.
\<close>

fun argmin :: "real list \<Rightarrow> nat" where
  "argmin [] = 0"
| "argmin (d # ds) =
     (if ds = [] then 0
      else (let j = argmin ds in if d \<le> ds ! j then 0 else Suc j))"

text \<open>
  Modelled from the spec: \<^verbatim>\<open>assign(sample, codebook)\<close>, the contract of the missing
  \<^verbatim>\<open>KMeans.predict\<close> for one sample. It compares the squared distances, which are
  ordered as the distances are and can be evaluated.
\<close>

definition assign :: "real list \<Rightarrow> real list list \<Rightarrow> nat" where
  "assign sample codebook = argmin (map (sq_dist sample) codebook)"

text \<open>
  Modelled from the spec: \<^verbatim>\<open>kmeans.predict(X)\<close> of the missing scikit-learn class, one
  \<^verbatim>\<open>assign\<close> for every row of \<open>X\<close>.
\<close>

definition predict :: "real list list \<Rightarrow> real list list \<Rightarrow> int list" where
  "predict centers X = map (\<lambda>sample. int (assign sample centers)) X"

text \<open>
  Index \<open>k\<close> is the nearest centroid of the sample: no centroid is strictly closer, and
  every centroid at the same distance has an index that is not lower.
\<close>

definition nearest_lowest :: "real list list \<Rightarrow> real list \<Rightarrow> nat \<Rightarrow> bool" where
  "nearest_lowest codebook sample k \<longleftrightarrow>
     k < length codebook
     \<and> (\<forall>j<length codebook. \<not> l2_dist sample (codebook ! j) < l2_dist sample (codebook ! k))
     \<and> (\<forall>j<length codebook.
          l2_dist sample (codebook ! j) = l2_dist sample (codebook ! k) \<longrightarrow> k \<le> j)"

section \<open>Vector quantization\<close>

text \<open>
  The centroids that \<^verbatim>\<open>KMeans(n_clusters=K, random_state=0).fit(flat_data)\<close> returns
  (\<^verbatim>\<open>kmeans.cluster_centers_\<close>, one row per centroid) are the parameter \<open>centers\<close>.
  \<^verbatim>\<open>
  flat_data = data.reshape(-1, 1)
  codebook = kmeans.cluster_centers_.flatten()
  indices = kmeans.predict(flat_data)
  index_matrix = indices.reshape(data.shape)
  reconstructed_flat = codebook[indices]
  reconstructed = reconstructed_flat.reshape(data.shape)
  \<close>
\<close>

definition flat_data :: "real list list \<Rightarrow> real list list" where
  "flat_data data = map (\<lambda>v. [v]) (concat data)"

definition codebook :: "real list list \<Rightarrow> real list" where
  "codebook centers = concat centers"

definition indices :: "real list list \<Rightarrow> real list list \<Rightarrow> int list" where
  "indices centers data = predict centers (flat_data data)"

definition index_matrix :: "real list list \<Rightarrow> real list list \<Rightarrow> py_error + int list list" where
  "index_matrix centers data = np_reshape (indices centers data) (shape_of data)"

definition reconstructed_flat :: "real list list \<Rightarrow> real list list \<Rightarrow> py_error + real list" where
  "reconstructed_flat centers data = gather (codebook centers) (indices centers data)"

definition reconstructed :: "real list list \<Rightarrow> real list list \<Rightarrow> py_error + real list list" where
  "reconstructed centers data =
     bind_err (reconstructed_flat centers data) (\<lambda>flat. np_reshape flat (shape_of data))"

section \<open>Product quantization: encoding\<close>

text \<open>
  The training \<^verbatim>\<open>KMeans(n_clusters=pc, random_state=0).fit(sub).cluster_centers_\<close> is the
  parameter \<open>fit\<close>.
  \<^verbatim>\<open>
  subspaces = [matrix[:, i*sub_dim:(i+1)*sub_dim] for i in range(M)]
  for sub in subspaces:
      kmeans = KMeans(n_clusters=pc, random_state=0).fit(sub)
      codebooks.append(kmeans.cluster_centers_)
      codes.append(kmeans.predict(sub))
  pq_codes = np.stack(codes, axis=1)
  \<close>
\<close>

definition subspaces :: "nat \<Rightarrow> nat \<Rightarrow> real list list \<Rightarrow> real list list list" where
  "subspaces M sub_dim matrix =
     map (\<lambda>i. map (\<lambda>row. py_slice row (i * sub_dim) ((i + 1) * sub_dim)) matrix) [0..<M]"

definition codebooks_of ::
  "(real list list \<Rightarrow> real list list) \<Rightarrow> nat \<Rightarrow> nat \<Rightarrow> real list list \<Rightarrow> real list list list" where
  "codebooks_of fit M sub_dim matrix = map fit (subspaces M sub_dim matrix)"

definition codes_of ::
  "(real list list \<Rightarrow> real list list) \<Rightarrow> nat \<Rightarrow> nat \<Rightarrow> real list list \<Rightarrow> int list list" where
  "codes_of fit M sub_dim matrix = map (\<lambda>sub. predict (fit sub) sub) (subspaces M sub_dim matrix)"

definition pq_codes_of ::
  "(real list list \<Rightarrow> real list list) \<Rightarrow> nat \<Rightarrow> nat \<Rightarrow> real list list \<Rightarrow> py_error + int list list" where
  "pq_codes_of fit M sub_dim matrix = np_stack_axis1 (codes_of fit M sub_dim matrix)"


section \<open>Properties of the symmetric quantizer\<close>

lemma rhe_lower: "\<lfloor>r\<rfloor> \<le> round_half_even r"
  by (simp add: round_half_even_def Let_def)

lemma rhe_upper: "round_half_even r \<le> \<lceil>r\<rceil>"
  unfolding round_half_even_def Let_def by (auto simp: ceiling_def) linarith+

lemma rhe_err: "\<bar>r - of_int (round_half_even r)\<bar> \<le> 1 / 2"
  unfolding round_half_even_def Let_def by auto

lemma rhe_of_int: "round_half_even (of_int k) = k"
  by (simp add: round_half_even_def)

lemma scaled_err:
  fixes a s c :: real
  assumes "0 < s" "\<bar>a / s - c\<bar> \<le> 1 / 2"
  shows "\<bar>a - c * s\<bar> \<le> s / 2"
proof -
  have "a - c * s = (a / s - c) * s"
    using assms(1) by (simp add: field_simps)
  then have "\<bar>a - c * s\<bar> = \<bar>a / s - c\<bar> * s"
    using assms(1) by (simp add: abs_mult)
  also have "\<dots> \<le> 1 / 2 * s"
    using assms by (intro mult_right_mono) simp_all
  finally show ?thesis by simp
qed

lemma expo_search_lower: "- 126 \<le> expo_search n a"
  by (induction n) simp_all

lemma expo_search_le: "expo_search n a = - 126 \<or> 2 powi (expo_search n a) \<le> a"
  by (induction n) simp_all

lemma expo_search_upper:
  assumes "a < 2 powi (e + 1)" "- 126 \<le> e"
  shows "expo_search n a \<le> e"
proof (induction n)
  case 0
  then show ?case using assms(2) by simp
next
  case (Suc n)
  show ?case
  proof (cases "2 powi (int n - 126) \<le> a")
    case True
    then have lt: "(2 :: real) powi (int n - 126) < 2 powi (e + 1)" using assms(1) by simp
    have "int n - 126 < e + 1"
    proof (rule ccontr)
      assume "\<not> int n - 126 < e + 1"
      then have "e + 1 \<le> int n - 126" by simp
      then have "(2 :: real) powi (e + 1) \<le> 2 powi (int n - 126)"
        by (rule power_int_increasing) simp
      then show False using lt by simp
    qed
    then show ?thesis using True by simp
  next
    case False
    then show ?thesis using Suc by simp
  qed
qed

lemma half_ulp: "(2 :: real) powi (e - 23) / 2 = 2 powi e / 2 ^ 24"
proof -
  have "(2 :: real) powi (e - 23) = 2 powi e / 2 powi 23"
    by (rule power_int_diff) simp
  then show ?thesis by simp
qed

lemma rne32_err_ulp: "\<bar>r - rne32 r\<bar> \<le> 2 powi (expo32 \<bar>r\<bar> - 23) / 2"
proof -
  define ulp :: real where "ulp = 2 powi (expo32 \<bar>r\<bar> - 23)"
  have pos: "0 < ulp" by (simp add: ulp_def)
  have "\<bar>r / ulp - of_int (round_half_even (r / ulp))\<bar> \<le> 1 / 2" by (rule rhe_err)
  with pos have "\<bar>r - of_int (round_half_even (r / ulp)) * ulp\<bar> \<le> ulp / 2"
    by (rule scaled_err)
  then show ?thesis by (simp add: rne32_def Let_def ulp_def)
qed

lemma rne32_err_normal:
  assumes "1 / 2 ^ 126 \<le> \<bar>r\<bar>"
  shows "\<bar>r - rne32 r\<bar> \<le> \<bar>r\<bar> / 2 ^ 24"
proof -
  have "2 powi (expo32 \<bar>r\<bar>) \<le> \<bar>r\<bar>"
  proof (cases "expo32 \<bar>r\<bar> = - 126")
    case True
    have "(2 :: real) powi (- 126) = 1 / 2 ^ 126"
      by (simp add: power_int_minus field_simps)
    then show ?thesis using assms True by simp
  next
    case False
    then show ?thesis using expo_search_le [of 254 "\<bar>r\<bar>"] by (simp add: expo32_def)
  qed
  then have "2 powi (expo32 \<bar>r\<bar>) / 2 ^ 24 \<le> \<bar>r\<bar> / 2 ^ 24"
    by (simp add: divide_right_mono)
  then show ?thesis using rne32_err_ulp [of r] half_ulp [of "expo32 \<bar>r\<bar>"] by linarith
qed

lemma rne32_err: "\<bar>r - rne32 r\<bar> \<le> \<bar>r\<bar> / 2 ^ 24 + 1 / 2 ^ 150"
proof (cases "expo32 \<bar>r\<bar> = - 126")
  case True
  have "(2 :: real) powi (- 126 - 23) / 2 = 1 / 2 ^ 150"
    by (simp add: power_int_minus field_simps)
  then have "\<bar>r - rne32 r\<bar> \<le> 1 / 2 ^ 150"
    using rne32_err_ulp [of r] True by simp
  moreover have "0 \<le> \<bar>r\<bar> / 2 ^ 24" by simp
  ultimately show ?thesis by linarith
next
  case False
  then have "2 powi (expo32 \<bar>r\<bar>) \<le> \<bar>r\<bar>"
    using expo_search_le [of 254 "\<bar>r\<bar>"] by (simp add: expo32_def)
  then have "2 powi (expo32 \<bar>r\<bar>) / 2 ^ 24 \<le> \<bar>r\<bar> / 2 ^ 24"
    by (simp add: divide_right_mono)
  moreover have "(0 :: real) \<le> 1 / 2 ^ 150" by simp
  ultimately show ?thesis
    using rne32_err_ulp [of r] half_ulp [of "expo32 \<bar>r\<bar>"] by linarith
qed

lemma rne32_zero: "rne32 0 = 0"
  by (simp add: rne32_def round_half_even_def)

lemma rne32_small_int:
  assumes "\<bar>k\<bar> < 2 ^ 24"
  shows "rne32 (of_int k) = of_int k"
proof -
  define e where "e = expo32 \<bar>of_int k\<bar>"
  have "\<bar>of_int k :: real\<bar> < 2 powi (23 + 1)"
  proof -
    have "\<bar>of_int k :: real\<bar> = of_int \<bar>k\<bar>" by simp
    also have "\<dots> < of_int (2 ^ 24)" using assms by (simp only: of_int_less_iff)
    finally show ?thesis by simp
  qed
  then have "e \<le> 23"
    unfolding e_def expo32_def by (rule expo_search_upper) simp
  define j where "j = nat (23 - e)"
  have "(2 :: real) powi (e - 23) = 2 powi (- int j)"
    using \<open>e \<le> 23\<close> by (simp add: j_def)
  also have "\<dots> = 1 / 2 ^ j"
    by (simp add: power_int_minus field_simps)
  finally have ulp: "(2 :: real) powi (e - 23) = 1 / 2 ^ j" .
  have "of_int k / (1 / 2 ^ j) = (of_int (k * 2 ^ j) :: real)" by simp
  then have "round_half_even (of_int k / (1 / 2 ^ j)) = k * 2 ^ j"
    by (simp only: rhe_of_int)
  then show ?thesis
    by (simp add: rne32_def Let_def e_def [symmetric] ulp)
qed

lemma fl32_finite:
  assumes "\<bar>rne32 r\<bar> < 2 ^ 128"
  shows "fl32 r = Fin (rne32 r)"
proof -
  have "rne32 r < 2 ^ 128" "- (2 ^ 128) < rne32 r" using assms by linarith+
  then show ?thesis by (simp add: fl32_def Let_def)
qed

lemma fl32_zero: "fl32 0 = Fin 0"
  by (simp add: fl32_def rne32_zero)

lemma np_max_abs_Max:
  assumes "concat x \<noteq> []"
  shows "np_max_abs x = Inr (Max (abs ` set (concat x)))"
proof -
  obtain y ys where c: "concat x = y # ys"
    using assms by (cases "concat x") auto
  have "fold max (map abs ys) \<bar>y\<bar> = Max (set (\<bar>y\<bar> # map abs ys))"
    by (rule Max.set_eq_fold [symmetric])
  then show ?thesis
    unfolding np_max_abs_def c by simp
qed

lemma np_max_abs_ge:
  assumes "np_max_abs x = Inr m" "v \<in> set (concat x)"
  shows "\<bar>v\<bar> \<le> m"
proof -
  have ne: "concat x \<noteq> []" using assms(2) by (cases "concat x") simp_all
  have "m = Max (abs ` set (concat x))"
    using assms(1) np_max_abs_Max [OF ne] by simp
  moreover have "\<bar>v\<bar> \<le> Max (abs ` set (concat x))"
    using assms(2) by (intro Max_ge) (auto simp del: set_concat)
  ultimately show ?thesis by simp
qed

lemma np_max_abs_nth:
  assumes "np_max_abs x = Inr m" "i < length x" "j < length (x ! i)"
  shows "\<bar>x ! i ! j\<bar> \<le> m"
proof -
  have "x ! i ! j \<in> set (concat x)"
    using assms(2,3) by (auto intro!: bexI [of _ "x ! i"])
  then show ?thesis using assms(1) by (rule np_max_abs_ge [rotated])
qed

lemma qmax_of_pos: "1 \<le> nb \<Longrightarrow> qmax_of nb = Inr (PyInt (2 ^ nat (nb - 1) - 1))"
  by (simp add: qmax_of_def py_pow2_def)

lemma qmax_of_8: "qmax_of 8 = Inr (PyInt 127)"
  by (simp add: qmax_of_pos)

lemma py_pred_float_range:
  assumes "0 \<le> r" "r \<le> 1"
  shows "\<exists>f. py_pred (PyFloat r) = PyFloat f \<and> - 1 \<le> f \<and> f \<le> 0"
proof -
  define k where "k = round_half_even ((r - 1) * 2 ^ 53)"
  have "(r - 1) * 2 ^ 53 \<le> 0" using assms(2) by (simp add: mult_le_0_iff)
  then have "\<lceil>(r - 1) * 2 ^ 53\<rceil> \<le> 0" by (simp add: ceiling_le_iff)
  then have up: "k \<le> 0" unfolding k_def using rhe_upper [of "(r - 1) * 2 ^ 53"] by linarith
  have "- 1 \<le> r - 1" using assms(1) by simp
  then have "- 1 * 2 ^ 53 \<le> (r - 1) * 2 ^ 53" by (intro mult_right_mono) simp_all
  then have "of_int (- (2 ^ 53)) \<le> (r - 1) * 2 ^ 53" by simp
  then have "- (2 ^ 53) \<le> \<lfloor>(r - 1) * 2 ^ 53\<rfloor>" by (simp only: le_floor_iff)
  then have lo: "- (2 ^ 53) \<le> k" unfolding k_def using rhe_lower [of "(r - 1) * 2 ^ 53"] by linarith
  have "(of_int k :: real) \<le> 0" using up by simp
  then have f0: "(of_int k :: real) / 2 ^ 53 \<le> 0" by (simp add: divide_le_0_iff)
  have "(of_int (- (2 ^ 53)) :: real) \<le> of_int k" using lo by (simp only: of_int_le_iff)
  then have "- (2 ^ 53) \<le> (of_int k :: real)" by simp
  then have f1: "- 1 \<le> (of_int k :: real) / 2 ^ 53" by (simp add: le_divide_eq)
  have "py_pred (PyFloat r) = PyFloat (of_int k / 2 ^ 53)"
    by (simp only: py_pred.simps k_def)
  then show ?thesis using f0 f1 by blast
qed

lemma qmax_of_nonpos:
  assumes "nb < 1" "qmax_of nb = Inr p"
  shows "\<exists>f. p = PyFloat f \<and> - 1 \<le> f \<and> f \<le> 0"
proof -
  have "(2 :: real) powi (nb - 1) \<le> 2 powi 0"
    using assms(1) by (intro power_int_increasing) simp_all
  then have le1: "(2 :: real) powi (nb - 1) \<le> 1" by simp
  have ge0: "(0 :: real) \<le> 2 powi (nb - 1)" by simp
  consider "py_pow2 (nb - 1) = Inr (PyFloat 0)" | "py_pow2 (nb - 1) = Inr (PyFloat (2 powi (nb - 1)))"
    using assms by (auto simp: qmax_of_def py_pow2_def split: if_splits)
  then show ?thesis
  proof cases
    case 1
    then have "p = py_pred (PyFloat 0)" using assms(2) by (simp add: qmax_of_def)
    then show ?thesis using py_pred_float_range [of 0] by simp
  next
    case 2
    then have "p = py_pred (PyFloat (2 powi (nb - 1)))" using assms(2) by (simp add: qmax_of_def)
    then show ?thesis using py_pred_float_range [OF ge0 le1] by simp
  qed
qed

lemma quantize_symmetric_Inr:
  assumes "np_max_abs x = Inr m" "qmax_of nb = Inr qmax" "np_scalar_divide m qmax = Inr scale"
  shows "quantize_symmetric cast x nb =
    Inr (map (map (\<lambda>w. np_clip (sint w) (py_neg qmax) qmax)) (rounded_int8 cast x scale), scale)"
  using assms by (simp add: quantize_symmetric_def Let_def)

lemma quantize_symmetric_codes:
  assumes "quantize_symmetric cast x nb = Inr (codes, scale)"
  shows "\<exists>qmax. qmax_of nb = Inr qmax
     \<and> codes = map (map (\<lambda>w. np_clip (sint w) (py_neg qmax) qmax)) (rounded_int8 cast x scale)"
  using assms by (auto simp: quantize_symmetric_def Let_def split: sum.splits)

lemma rounded_int8_nth:
  "i < length x \<Longrightarrow> j < length (x ! i) \<Longrightarrow>
   rounded_int8 cast x scale ! i ! j = astype_int8 cast (np_round (np_divide (x ! i ! j) scale))"
  by (simp add: rounded_int8_def)

lemma rounded_int8_length: "length (rounded_int8 cast x scale) = length x"
  "i < length x \<Longrightarrow> length (rounded_int8 cast x scale ! i) = length (x ! i)"
  by (simp_all add: rounded_int8_def)

lemma c_trunc_of_int: "c_trunc (of_int k) = k"
  by (simp add: c_trunc_def)

lemma astype_int8_in_range:
  "- 128 \<le> k \<Longrightarrow> k \<le> 127 \<Longrightarrow> sint (astype_int8 cast (Fin (of_int k))) = k"
  by (simp add: c_trunc_of_int sint_sbintrunc' signed_take_bit_int_eq_self)

lemma sint_int8_range: "- 128 \<le> sint (w :: 8 word) \<and> sint w \<le> 127"
  using sint_ge [of w] sint_lt [of w] by simp

text \<open>
  Claim C3. For every bit width \<^verbatim>\<open>num_bits \<ge> 1\<close>, which includes every valid
  configuration \<^verbatim>\<open>num_bits \<ge> 2\<close>, and every matrix, every code that
  \<^verbatim>\<open>quantize_symmetric\<close> returns is an integer in \<open>[- qmax, qmax]\<close>, with
  \<open>qmax = 2 ^ (num_bits - 1) - 1\<close>.
\<close>

theorem codes_in_qmax_range:
  assumes "1 \<le> num_bits"
    and "quantize_symmetric cast x num_bits = Inr (codes, scale)"
    and "c \<in> set (concat codes)"
  shows "\<exists>k. c = PyInt k \<and> - (2 ^ nat (num_bits - 1) - 1) \<le> k \<and> k \<le> 2 ^ nat (num_bits - 1) - 1"
proof -
  define q :: int where "q = 2 ^ nat (num_bits - 1) - 1"
  have q0: "0 \<le> q" by (simp add: q_def)
  have qm: "qmax_of num_bits = Inr (PyInt q)"
    unfolding q_def using assms(1) by (rule qmax_of_pos)
  have "codes = map (map (\<lambda>w. np_clip (sint w) (PyInt (- q)) (PyInt q)))
           (rounded_int8 cast x scale)"
    using quantize_symmetric_codes [OF assms(2)] by (simp add: qm)
  then have "c \<in> set (concat (map (map (\<lambda>w :: 8 word. np_clip (sint w) (PyInt (- q)) (PyInt q)))
           (rounded_int8 cast x scale)))"
    using assms(3) by simp
  then obtain w :: "8 word" where "c = np_clip (sint w) (PyInt (- q)) (PyInt q)"
    by auto
  then have "c = PyInt (min (max (sint w) (- q)) q)" by simp
  moreover have "- q \<le> min (max (sint w) (- q)) q" using q0 by simp
  moreover have "min (max (sint w) (- q)) q \<le> q" by simp
  ultimately show ?thesis unfolding q_def by blast
qed

text \<open>
  Claim C8. For every matrix and every \<^verbatim>\<open>num_bits\<close>, every code returned lies in
  \<open>[-128, 127]\<close>: the clip acts on values that are already \<^verbatim>\<open>int8\<close>, also where
  \<open>qmax\<close> exceeds 127.
\<close>

theorem codes_in_int8_range:
  assumes "quantize_symmetric cast x num_bits = Inr (codes, scale)"
    and "c \<in> set (concat codes)"
  shows "- 128 \<le> pynum_val c \<and> pynum_val c \<le> 127"
proof -
  obtain qmax where qm: "qmax_of num_bits = Inr qmax"
    and "codes = map (map (\<lambda>w. np_clip (sint w) (py_neg qmax) qmax)) (rounded_int8 cast x scale)"
    using quantize_symmetric_codes [OF assms(1)] by blast
  then have "c \<in> set (concat (map (map (\<lambda>w :: 8 word.
      np_clip (sint w) (py_neg qmax) qmax)) (rounded_int8 cast x scale)))"
    using assms(2) by simp
  then obtain w :: "8 word"
    where c: "c = np_clip (sint w) (py_neg qmax) qmax"
    by auto
  have w: "- 128 \<le> sint w" "sint w \<le> 127"
    using sint_int8_range [of w] by simp_all
  show ?thesis
  proof (cases "1 \<le> num_bits")
    case True
    define q :: int where "q = 2 ^ nat (num_bits - 1) - 1"
    have q0: "0 \<le> q" by (simp add: q_def)
    have "qmax_of num_bits = Inr (PyInt q)"
      unfolding q_def using True by (rule qmax_of_pos)
    then have qq: "qmax = PyInt q" using qm by simp
    define k where "k = min (max (sint w) (- q)) q"
    from qq have ck: "c = PyInt k" using c by (simp add: k_def)
    have "- 128 \<le> k" "k \<le> 127"
      unfolding k_def using w q0 by linarith+
    then have "(- 128 :: real) \<le> of_int k" "of_int k \<le> (127 :: real)"
      by linarith+
    then show ?thesis by (simp add: ck)
  next
    case False
    then have "num_bits < 1" by simp
    then obtain f where f: "qmax = PyFloat f" "- 1 \<le> f" "f \<le> 0"
      using qmax_of_nonpos qm by blast
    then have "c = PyFloat (min (max (of_int (sint w)) (- f)) f)" using c by simp
    then show ?thesis using w f by (simp add: min_def max_def)
  qed
qed

lemma rhe_abs_lt:
  assumes "\<bar>r\<bar> < of_int n + 1 / 2"
  shows "\<bar>round_half_even r\<bar> \<le> n"
proof -
  have "\<bar>of_int (round_half_even r) :: real\<bar> < of_int n + 1"
    using rhe_err [of r] assms by linarith
  then have "(of_int \<bar>round_half_even r\<bar> :: real) < of_int (n + 1)" by simp
  then have "\<bar>round_half_even r\<bar> < n + 1" by (simp only: of_int_less_iff)
  then show ?thesis by simp
qed

lemma scaled_bound:
  fixes a s c b :: real
  assumes "0 < s" "\<bar>a / s - c\<bar> \<le> b"
  shows "\<bar>a - c * s\<bar> \<le> b * s"
proof -
  have "a - c * s = (a / s - c) * s"
    using assms(1) by (simp add: field_simps)
  then have "\<bar>a - c * s\<bar> = \<bar>a / s - c\<bar> * s"
    using assms(1) by (simp add: abs_mult)
  also have "\<dots> \<le> b * s"
    using assms by (intro mult_right_mono) simp_all
  finally show ?thesis .
qed

lemma as_float32_127: "as_float32 (PyInt 127) = Inr (Fin 127)"
proof -
  have "rne32 (of_int 127) = of_int 127" by (rule rne32_small_int) simp
  then have "rne32 127 = 127" by simp
  then have "fl32 127 = Fin 127" by (simp add: fl32_def)
  then show ?thesis by (simp add: py_int_overflows_def)
qed

lemma scale_8:
  assumes "127 / 2 ^ 126 \<le> m" "m < 2 ^ 128"
  defines "s \<equiv> rne32 (m / 127)"
  shows "np_scalar_divide m (PyInt 127) = Inr (Fin s)"
    and "\<bar>m / 127 - s\<bar> \<le> m / 127 / 2 ^ 24"
    and "0 < s"
proof -
  have a: "1 / 2 ^ 126 \<le> m / 127" using assms(1) by simp
  then have "1 / 2 ^ 126 \<le> \<bar>m / 127\<bar>" by linarith
  then have "\<bar>m / 127 - rne32 (m / 127)\<bar> \<le> \<bar>m / 127\<bar> / 2 ^ 24" by (rule rne32_err_normal)
  moreover have "\<bar>m / 127\<bar> = m / 127" using a by simp
  ultimately show e: "\<bar>m / 127 - s\<bar> \<le> m / 127 / 2 ^ 24" by (simp add: s_def)
  have "(0 :: real) < 1 / 2 ^ 126" by simp
  then have pos: "0 < m / 127" using a by linarith
  have e': "\<bar>m / 127 - s\<bar> \<le> m / 2130706432" using e by simp
  show "0 < s" using e' pos by linarith
  have "m < 340282366920938463463374607431768211456" using assms(2) by simp
  then have "\<bar>s\<bar> < 340282366920938463463374607431768211456" using e' pos by linarith
  then have "\<bar>s\<bar> < 2 ^ 128" by simp
  then have "fl32 (m / 127) = Fin s" unfolding s_def by (rule fl32_finite)
  then show "np_scalar_divide m (PyInt 127) = Inr (Fin s)"
    by (simp add: np_scalar_divide_def as_float32_127 del: as_float32.simps)
qed

lemma quotient_8:
  fixes m s v :: real
  assumes "0 < s" "\<bar>m / 127 - s\<bar> \<le> m / 127 / 2 ^ 24" "\<bar>v\<bar> \<le> m"
  shows "\<bar>v / s\<bar> \<le> 1271 / 10"
proof -
  have "\<bar>m / 127 - s\<bar> \<le> m / 2130706432" using assms(2) by simp
  then have "\<bar>v\<bar> \<le> 1271 / 10 * s" using assms(3) by linarith
  then have "\<bar>v\<bar> / s \<le> 1271 / 10" using assms(1) by (simp add: pos_divide_le_eq)
  then show ?thesis using assms(1) by simp
qed

lemma rounded_quotient_8:
  assumes "\<bar>r\<bar> \<le> 1271 / 10"
  shows "fl32 r = Fin (rne32 r)"
    and "\<bar>r - rne32 r\<bar> \<le> 1 / 100000"
    and "\<bar>round_half_even (rne32 r)\<bar> \<le> 127"
proof -
  have "\<bar>r\<bar> / 2 ^ 24 \<le> (1271 / 10) / 2 ^ 24" using assms by (intro divide_right_mono) simp_all
  moreover have "(1271 / 10) / 2 ^ 24 + 1 / 2 ^ 150 \<le> (1 / 100000 :: real)" by simp
  ultimately have "\<bar>r\<bar> / 2 ^ 24 + 1 / 2 ^ 150 \<le> 1 / 100000" by linarith
  then show e: "\<bar>r - rne32 r\<bar> \<le> 1 / 100000" using rne32_err [of r] by linarith
  then have b: "\<bar>rne32 r\<bar> \<le> 1272 / 10" using assms by linarith
  then have "\<bar>rne32 r\<bar> < 2 ^ 128" by simp
  then show "fl32 r = Fin (rne32 r)" by (rule fl32_finite)
  have "\<bar>rne32 r\<bar> < of_int 127 + 1 / 2" using b by simp
  then show "\<bar>round_half_even (rne32 r)\<bar> \<le> 127" by (rule rhe_abs_lt)
qed

lemma quantize_symmetric_8:
  assumes "np_max_abs x = Inr m" "127 / 2 ^ 126 \<le> m" "m < 2 ^ 128"
  shows "quantize_symmetric cast x 8 =
    Inr (map (map (\<lambda>w. np_clip (sint w) (PyInt (- 127)) (PyInt 127)))
           (rounded_int8 cast x (Fin (rne32 (m / 127)))), Fin (rne32 (m / 127)))"
  using quantize_symmetric_Inr [OF assms(1) qmax_of_8 scale_8(1) [OF assms(2,3)], of cast]
  by simp

lemma rounded_8:
  assumes "np_max_abs x = Inr m" "127 / 2 ^ 126 \<le> m" "m < 2 ^ 128"
    and "i < length x" "j < length (x ! i)"
  defines "s \<equiv> rne32 (m / 127)"
  defines "k \<equiv> round_half_even (rne32 (x ! i ! j / s))"
  shows "np_round (np_divide (x ! i ! j) (Fin s)) = Fin (of_int k)"
    and "\<bar>k\<bar> \<le> 127"
    and "sint (rounded_int8 cast x (Fin s) ! i ! j) = k"
    and "\<bar>x ! i ! j / s - of_int k\<bar> \<le> 1 / 2 + 1 / 100000"
proof -
  have s: "0 < s" "\<bar>m / 127 - s\<bar> \<le> m / 127 / 2 ^ 24"
    unfolding s_def using assms(2,3) by (rule scale_8(3), rule scale_8(2))
  have "\<bar>x ! i ! j\<bar> \<le> m" using assms(1,4,5) by (rule np_max_abs_nth)
  with s have q: "\<bar>x ! i ! j / s\<bar> \<le> 1271 / 10" by (rule quotient_8)
  have f: "fl32 (x ! i ! j / s) = Fin (rne32 (x ! i ! j / s))"
    using q by (rule rounded_quotient_8(1))
  show r: "np_round (np_divide (x ! i ! j) (Fin s)) = Fin (of_int k)"
    using s(1) f by (simp add: k_def)
  show b: "\<bar>k\<bar> \<le> 127" unfolding k_def using q by (rule rounded_quotient_8(3))
  have "rounded_int8 cast x (Fin s) ! i ! j = astype_int8 cast (Fin (of_int k))"
    using assms(4,5) r by (simp only: rounded_int8_nth)
  moreover have "sint (astype_int8 cast (Fin (of_int k))) = k"
    using b by (intro astype_int8_in_range) linarith+
  ultimately show "sint (rounded_int8 cast x (Fin s) ! i ! j) = k" by simp
  have "\<bar>x ! i ! j / s - rne32 (x ! i ! j / s)\<bar> \<le> 1 / 100000"
    using q by (rule rounded_quotient_8(2))
  moreover have "\<bar>rne32 (x ! i ! j / s) - of_int k\<bar> \<le> 1 / 2"
    unfolding k_def by (rule rhe_err)
  ultimately show "\<bar>x ! i ! j / s - of_int k\<bar> \<le> 1 / 2 + 1 / 100000" by linarith
qed

text \<open>
  Claim C9, amended. For \<^verbatim>\<open>num_bits = 8\<close> and a matrix whose largest absolute value
  \<open>m\<close> is finite and at least \<open>127 * 2 ^ -126\<close>, so that the scale \<open>m / 127\<close> is in the
  normal range of \<^verbatim>\<open>float32\<close>: the scale is the \<^verbatim>\<open>float32\<close> rounding of \<open>m / 127\<close> and,
  at every position, the rounded quotient \<open>r\<close> has \<open>\<bar>r\<bar> \<le> 127\<close>; the \<^verbatim>\<open>int8\<close>
  conversion keeps its value (whatever the platform does out of range), the clip returns
  it unchanged, and it is the code returned.
\<close>

theorem clip_is_noop_8:
  assumes "np_max_abs x = Inr m" and "127 / 2 ^ 126 \<le> m" and "m < 2 ^ 128"
    and "i < length x" and "j < length (x ! i)"
  shows "\<exists>codes s r. quantize_symmetric cast x 8 = Inr (codes, Fin s)
      \<and> s = rne32 (m / 127)
      \<and> np_round (np_divide (x ! i ! j) (Fin s)) = Fin (of_int r)
      \<and> \<bar>r\<bar> \<le> 127
      \<and> sint (rounded_int8 cast x (Fin s) ! i ! j) = r
      \<and> np_clip r (PyInt (- 127)) (PyInt 127) = PyInt r
      \<and> codes ! i ! j = PyInt r"
proof -
  define s where "s = rne32 (m / 127)"
  define r where "r = round_half_even (rne32 (x ! i ! j / s))"
  define codes where "codes = map (map (\<lambda>w. np_clip (sint w) (PyInt (- 127)) (PyInt 127)))
           (rounded_int8 cast x (Fin s))"
  have q: "quantize_symmetric cast x 8 = Inr (codes, Fin s)"
    unfolding codes_def s_def using assms(1,2,3) by (rule quantize_symmetric_8)
  have rd: "np_round (np_divide (x ! i ! j) (Fin s)) = Fin (of_int r)"
    and b: "\<bar>r\<bar> \<le> 127"
    and si: "sint (rounded_int8 cast x (Fin s) ! i ! j) = r"
    unfolding r_def s_def using assms by (rule rounded_8(1), rule rounded_8(2), rule rounded_8(3))
  have cl: "np_clip r (PyInt (- 127)) (PyInt 127) = PyInt r"
    using b by simp
  have "codes ! i ! j = np_clip (sint (rounded_int8 cast x (Fin s) ! i ! j)) (PyInt (- 127)) (PyInt 127)"
    unfolding codes_def using assms(4,5) by (simp add: rounded_int8_length)
  then have "codes ! i ! j = PyInt r" using si cl by simp
  with q rd b si cl show ?thesis unfolding s_def by blast
qed

lemma dequantized_8:
  fixes s x :: real
  assumes s_lo: "1 / 2 ^ 127 \<le> s" and s_hi: "s \<le> 2 ^ 121"
    and k: "\<bar>k\<bar> \<le> 127"
    and q: "\<bar>x / s - of_int k\<bar> \<le> 1 / 2 + 1 / 100000"
  shows "np_multiply (rne32 (of_int k)) (Fin s) = Fin (rne32 (of_int k * s))"
    and "\<bar>x - rne32 (of_int k * s)\<bar> \<le> s / 2 + s / 2 ^ 15"
proof -
  define t where "t = of_int k * s"
  have pos: "0 < s"
  proof -
    have "(0 :: real) < 1 / 2 ^ 127" by simp
    then show ?thesis using s_lo by linarith
  qed
  have "\<bar>of_int k :: real\<bar> = of_int \<bar>k\<bar>" by simp
  also have "\<dots> \<le> of_int 127" using k by (simp only: of_int_le_iff)
  finally have ak: "\<bar>of_int k :: real\<bar> \<le> 127" by simp
  have "\<bar>t\<bar> = \<bar>of_int k\<bar> * s" using pos by (simp add: t_def abs_mult)
  also have "\<dots> \<le> 127 * s" using ak pos by (intro mult_right_mono) simp_all
  finally have t: "\<bar>t\<bar> \<le> 127 * s" .
  have "\<bar>t - rne32 t\<bar> \<le> \<bar>t\<bar> / 2 ^ 24 + 1 / 2 ^ 150" by (rule rne32_err)
  then have e1: "\<bar>t - rne32 t\<bar> \<le> \<bar>t\<bar> / 16777216 + 1 / 2 ^ 150" by simp
  have "(1 :: real) / 2 ^ 150 = 1 / 2 ^ 127 / 8388608" by simp
  also have "\<dots> \<le> s / 8388608" using s_lo by (intro divide_right_mono) simp_all
  finally have tiny: "(1 :: real) / 2 ^ 150 \<le> s / 8388608" .
  have e2: "\<bar>t - rne32 t\<bar> \<le> 127 * s / 16777216 + s / 8388608"
    using e1 t tiny by linarith
  have "s \<le> 2658455991569831745807614120560689152" using s_hi by simp
  then have "\<bar>rne32 t\<bar> < 340282366920938463463374607431768211456"
    using e2 t pos by linarith
  then have "\<bar>rne32 t\<bar> < 2 ^ 128" by simp
  then have f: "fl32 t = Fin (rne32 t)" by (rule fl32_finite)
  have "\<bar>k\<bar> < 2 ^ 24" using k by simp
  then have "rne32 (of_int k) = of_int k" by (rule rne32_small_int)
  then show "np_multiply (rne32 (of_int k)) (Fin s) = Fin (rne32 (of_int k * s))"
    using f by (simp add: t_def)
  have "\<bar>x - of_int k * s\<bar> \<le> (1 / 2 + 1 / 100000) * s"
    using pos q by (rule scaled_bound)
  then have e3: "\<bar>x - t\<bar> \<le> s / 2 + s / 100000" by (simp add: t_def algebra_simps)
  have "\<bar>x - rne32 t\<bar> \<le> s / 2 + s / 32768"
    using e2 e3 pos by linarith
  then show "\<bar>x - rne32 (of_int k * s)\<bar> \<le> s / 2 + s / 2 ^ 15" by (simp add: t_def)
qed

text \<open>
  Claim C2, amended. For \<^verbatim>\<open>num_bits = 8\<close> and a matrix whose largest absolute value
  \<open>m\<close> lies between \<open>127 * 2 ^ -126\<close> and \<open>2 ^ 127\<close>, at every position whose code is the
  value before the clip, the dequantized value is finite and differs from the input by
  at most \<open>scale / 2 + scale / 2 ^ 15\<close>, where \<open>scale\<close> is the scale returned, the
  \<^verbatim>\<open>float32\<close> rounding of \<open>m / (2 ^ 7 - 1)\<close>.
\<close>

theorem roundtrip_error_8:
  assumes "np_max_abs x = Inr m" and "127 / 2 ^ 126 \<le> m" and "m \<le> 2 ^ 127"
    and "quantize_symmetric cast x 8 = Inr (codes, scale)"
    and "i < length x" and "j < length (x ! i)"
    and "codes ! i ! j = PyInt (sint (rounded_int8 cast x scale ! i ! j))"
  shows "\<exists>s r. scale = Fin s \<and> s = rne32 (m / 127)
      \<and> dequantize_symmetric codes scale ! i ! j = Fin r
      \<and> \<bar>x ! i ! j - r\<bar> \<le> s / 2 + s / 2 ^ 15"
proof -
  define s where "s = rne32 (m / 127)"
  define k where "k = round_half_even (rne32 (x ! i ! j / s))"
  have m2: "m < 2 ^ 128"
  proof -
    have "(2 :: real) ^ 127 < 2 ^ 128" by simp
    then show ?thesis using assms(3) by linarith
  qed
  have "quantize_symmetric cast x 8 =
    Inr (map (map (\<lambda>w. np_clip (sint w) (PyInt (- 127)) (PyInt 127)))
           (rounded_int8 cast x (Fin s)), Fin s)"
    unfolding s_def using assms(1,2) m2 by (rule quantize_symmetric_8)
  then have sc: "scale = Fin s"
    and cd: "codes = map (map (\<lambda>w. np_clip (sint w) (PyInt (- 127)) (PyInt 127)))
           (rounded_int8 cast x (Fin s))"
    using assms(4) by simp_all
  have len: "i < length codes" "j < length (codes ! i)"
    using assms(5,6) by (simp_all add: cd rounded_int8_length)
  have b: "\<bar>k\<bar> \<le> 127"
    and si: "sint (rounded_int8 cast x (Fin s) ! i ! j) = k"
    and q: "\<bar>x ! i ! j / s - of_int k\<bar> \<le> 1 / 2 + 1 / 100000"
    unfolding k_def s_def using assms(1,2) m2 assms(5,6)
    by (rule rounded_8(2), rule rounded_8(3), rule rounded_8(4))
  have c: "codes ! i ! j = PyInt k" using assms(7) sc si by simp
  have e: "\<bar>m / 127 - s\<bar> \<le> m / 127 / 2 ^ 24"
    unfolding s_def using assms(2) m2 by (rule scale_8(2))
  then have e': "\<bar>m / 127 - s\<bar> \<le> m / 2130706432" by simp
  define p :: real where "p = 1 / 2 ^ 126"
  have lo: "p \<le> m / 127" using assms(2) by (simp add: p_def)
  have "0 \<le> p" by (simp add: p_def)
  then have "p / 2 \<le> s" using e' lo by linarith
  then have s_lo: "1 / 2 ^ 127 \<le> s" by (simp add: p_def)
  have "m \<le> 170141183460469231731687303715884105728" using assms(3) by simp
  then have "s \<le> 2658455991569831745807614120560689152" using e' by linarith
  then have s_hi: "s \<le> 2 ^ 121" by simp
  have d: "dequantize_symmetric codes scale ! i ! j = Fin (rne32 (of_int k * s))"
    using len c dequantized_8(1) [OF s_lo s_hi b q] by (simp add: dequantize_symmetric_def sc)
  have "\<bar>x ! i ! j - rne32 (of_int k * s)\<bar> \<le> s / 2 + s / 2 ^ 15"
    using s_lo s_hi b q by (rule dequantized_8(2))
  with sc d show ?thesis unfolding s_def by blast
qed

lemma np_max_abs_zero:
  assumes "concat x \<noteq> []" "\<forall>v\<in>set (concat x). v = 0"
  shows "np_max_abs x = Inr 0"
proof -
  have "abs ` set (concat x) = {0}"
    using assms by (auto simp del: set_concat concat_eq_Nil_conv simp: image_def) (metis assms(1) last_in_set)
  then show ?thesis using np_max_abs_Max [OF assms(1)] by simp
qed

lemma fl32_of_pos_int:
  assumes "1 \<le> q"
  shows "np_divide 0 (fl32 (of_int q)) = Fin 0"
proof -
  have q1: "(1 :: real) \<le> of_int q" using assms by simp
  have "(1 :: real) / 2 ^ 126 \<le> 1" by simp
  then have "1 / 2 ^ 126 \<le> \<bar>of_int q :: real\<bar>" using q1 by linarith
  then have "\<bar>of_int q - rne32 (of_int q)\<bar> \<le> \<bar>of_int q :: real\<bar> / 2 ^ 24"
    by (rule rne32_err_normal)
  then have "\<bar>of_int q - rne32 (of_int q)\<bar> \<le> (of_int q :: real) / 16777216"
    using q1 by simp
  then have nz: "rne32 (of_int q) \<noteq> 0" using q1 by linarith
  show ?thesis
  proof (cases "fl32 (of_int q)")
    case (Fin v)
    then have "v = rne32 (of_int q)" by (simp add: fl32_def Let_def split: if_splits)
    then show ?thesis using Fin nz by (simp add: fl32_zero)
  next
    case NaN
    then show ?thesis by (simp add: fl32_def Let_def split: if_splits)
  qed simp_all
qed

text \<open>
  Claim C4, amended. On a matrix that has elements, all of them zero,
  \<^verbatim>\<open>quantize_symmetric\<close> does not handle the zero range. With \<^verbatim>\<open>2 \<le> num_bits \<le> 1024\<close>
  it raises nothing: it returns the scale 0, and every code is the clipped \<^verbatim>\<open>int8\<close>
  conversion of NaN, the value of \<^verbatim>\<open>0 / 0\<close>, which is what the platform makes of it. From
  \<^verbatim>\<open>num_bits = 1025\<close> on, \<^verbatim>\<open>max_val / qmax\<close> fails with \<^verbatim>\<open>OverflowError\<close>, as it does
  for every matrix.
\<close>

theorem zero_matrix_not_handled:
  assumes "concat x \<noteq> []" and "\<forall>v\<in>set (concat x). v = 0" and "2 \<le> num_bits"
  shows "quantize_symmetric cast x num_bits =
     (if num_bits \<le> 1024
      then Inr (map (map (\<lambda>v. np_clip (sint (cast NaN))
                    (PyInt (- (2 ^ nat (num_bits - 1) - 1))) (PyInt (2 ^ nat (num_bits - 1) - 1)))) x,
                Fin 0)
      else Inl OverflowError)"
proof -
  define q :: int where "q = 2 ^ nat (num_bits - 1) - 1"
  have m: "np_max_abs x = Inr 0" using assms(1,2) by (rule np_max_abs_zero)
  have qm: "qmax_of num_bits = Inr (PyInt q)"
    unfolding q_def using assms(3) by (intro qmax_of_pos) simp
  have "(1 :: int) < 2 ^ nat (num_bits - 1)"
    using assms(3) by (intro one_less_power) simp_all
  then have q1: "1 \<le> q" by (simp add: q_def)
  show ?thesis
  proof (cases "num_bits \<le> 1024")
    case True
    then have "nat (num_bits - 1) \<le> 1023" by simp
    then have "(2 :: int) ^ nat (num_bits - 1) \<le> 2 ^ 1023"
      by (intro power_increasing) simp_all
    moreover have "(2 :: int) ^ 1023 < 2 ^ 1024 - 2 ^ 970" by simp
    ultimately have "\<not> py_int_overflows q" using q1 by (simp add: py_int_overflows_def q_def)
    then have sc: "np_scalar_divide 0 (PyInt q) = Inr (Fin 0)"
      using fl32_of_pos_int [OF q1] by (simp add: np_scalar_divide_def)
    have z: "v = 0" if "row \<in> set x" "v \<in> set row" for row v
      using assms(2) that by auto
    have "rounded_int8 cast x (Fin 0) = map (map (\<lambda>v. cast NaN)) x"
      unfolding rounded_int8_def by (intro map_cong refl) (simp add: z)
    then show ?thesis
      using quantize_symmetric_Inr [OF m qm sc, of cast] True by (simp add: comp_def q_def)
  next
    case False
    then have "1024 \<le> nat (num_bits - 1)" by simp
    then have "(2 :: int) ^ 1024 \<le> 2 ^ nat (num_bits - 1)"
      by (intro power_increasing) simp_all
    then have "2 ^ 1024 - 2 ^ 970 \<le> q" by (simp add: q_def)
    then have "py_int_overflows q" using q1 by (simp add: py_int_overflows_def)
    then have "np_scalar_divide 0 (PyInt q) = Inl OverflowError"
      by (simp add: np_scalar_divide_def)
    then show ?thesis using m qm False by (simp add: quantize_symmetric_def)
  qed
qed

text \<open>
  Claim C5, amended. \<^verbatim>\<open>quantize_symmetric\<close> does not check \<^verbatim>\<open>num_bits\<close>: called with
  \<^verbatim>\<open>num_bits < 2\<close> on a matrix that has at least one element, it returns codes and a
  scale, unless \<^verbatim>\<open>num_bits - 1\<close> is so far below zero that Python cannot convert it to
  a float (\<open>num_bits - 1 \<le> - (2 ^ 1024 - 2 ^ 970)\<close>), where \<^verbatim>\<open>2**(num_bits - 1)\<close> fails
  with \<^verbatim>\<open>OverflowError\<close>.
\<close>

theorem no_config_error:
  assumes "num_bits < 2" and "concat x \<noteq> []"
  shows "(num_bits - 1 \<le> - (2 ^ 1024 - 2 ^ 970)
            \<longrightarrow> quantize_symmetric cast x num_bits = Inl OverflowError)
       \<and> (- (2 ^ 1024 - 2 ^ 970) < num_bits - 1
            \<longrightarrow> (\<exists>codes scale. quantize_symmetric cast x num_bits = Inr (codes, scale)))"
proof -
  have m: "np_max_abs x = Inr (Max (abs ` set (concat x)))"
    using assms(2) by (rule np_max_abs_Max)
  show ?thesis
  proof (cases "num_bits = 1")
    case True
    have "qmax_of 1 = Inr (PyInt 0)" by (simp add: qmax_of_pos)
    moreover have "\<exists>d. as_float32 (PyInt 0) = Inr d" by (simp add: py_int_overflows_def)
    ultimately show ?thesis
      using m True by (auto simp: quantize_symmetric_def np_scalar_divide_def Let_def)
  next
    case False
    then have neg: "num_bits - 1 < 0" using assms(1) by simp
    show ?thesis
    proof (cases "num_bits - 1 \<le> - (2 ^ 1024 - 2 ^ 970)")
      case True
      then have "py_int_overflows (num_bits - 1)" by (simp add: py_int_overflows_def)
      then have "qmax_of num_bits = Inl OverflowError"
        using neg by (simp add: qmax_of_def py_pow2_def)
      then show ?thesis using m True by (simp add: quantize_symmetric_def)
    next
      case nov: False
      then have "\<not> py_int_overflows (num_bits - 1)"
        using neg by (simp add: py_int_overflows_def)
      then have "\<exists>r. py_pow2 (num_bits - 1) = Inr (PyFloat r)"
        using neg by (simp add: py_pow2_def)
      then obtain r where "py_pow2 (num_bits - 1) = Inr (PyFloat r)" by blast
      then have "qmax_of num_bits =
          Inr (PyFloat (of_int (round_half_even ((r - 1) * 2 ^ 53)) / 2 ^ 53))"
        by (simp only: qmax_of_def sum.case py_pred.simps)
      then obtain f where "qmax_of num_bits = Inr (PyFloat f)" by blast
      then have "\<exists>codes scale. quantize_symmetric cast x num_bits = Inr (codes, scale)"
        using m by (simp add: quantize_symmetric_def np_scalar_divide_def Let_def)
      then show ?thesis using nov by simp
    qed
  qed
qed

lemma expo_search_ge:
  assumes "2 powi e \<le> a" "e \<le> int n - 127"
  shows "e \<le> expo_search n a"
  using assms(2)
proof (induction n)
  case 0
  then show ?case by simp
next
  case (Suc n)
  show ?case
  proof (cases "2 powi (int n - 126) \<le> a")
    case True
    then show ?thesis using Suc.prems by simp
  next
    case False
    then have "e \<noteq> int n - 126" using assms(1) by auto
    then have "e \<le> int n - 127" using Suc.prems by simp
    then show ?thesis using False Suc.IH by simp
  qed
qed

lemma expo32_eq:
  assumes "2 powi e \<le> a \<or> e = - 126" "a < 2 powi (e + 1)" "- 126 \<le> e" "e \<le> 127"
  shows "expo32 a = e"
proof -
  have up: "expo_search 254 a \<le> e" using assms(2,3) by (rule expo_search_upper)
  have "e \<le> expo_search 254 a"
  proof (cases "e = - 126")
    case True
    then show ?thesis using expo_search_lower [of 254 a] by simp
  next
    case False
    then have "2 powi e \<le> a" using assms(1) by simp
    then show ?thesis using assms(4) by (intro expo_search_ge) simp_all
  qed
  then show ?thesis using up by (simp add: expo32_def)
qed

lemma rne32_at:
  assumes "2 powi e \<le> \<bar>r\<bar> \<or> e = - 126" "\<bar>r\<bar> < 2 powi (e + 1)" "- 126 \<le> e" "e \<le> 127"
  shows "rne32 r = of_int (round_half_even (r / 2 powi (e - 23))) * 2 powi (e - 23)"
  using expo32_eq [OF assms] by (simp add: rne32_def Let_def)

lemmas rne32_eval =
  rne32_at [where e = "- 126"] rne32_at [where e = "- 6"] rne32_at [where e = "- 5"]
  rne32_at [where e = "- 4"] rne32_at [where e = "- 3"] rne32_at [where e = "- 2"]
  rne32_at [where e = "- 1"] rne32_at [where e = 0] rne32_at [where e = 1]
  rne32_at [where e = 2] rne32_at [where e = 3] rne32_at [where e = 4]
  rne32_at [where e = 5] rne32_at [where e = 6] rne32_at [where e = 7]

lemmas fl_eval = rne32_eval fl32_def round_half_even_def Let_def

lemma create_sample_matrix_value:
  "create_sample_matrix =
     [[13421773 / 134217728, - (1 / 2), 0, 1],
      [5 / 2, - (5033165 / 4194304), 11744051 / 16777216, - (5033165 / 16777216)],
      [15099494 / 16777216, 3 / 2, - 2, 13421773 / 67108864]]"
  by (simp add: create_sample_matrix_def fl_eval)


lemmas eval_defs = quantize_symmetric_def np_max_abs_def qmax_of_def py_pow2_def
  np_scalar_divide_def py_int_overflows_def rounded_int8_def c_trunc_def fl_eval

lemma sample_max: "np_max_abs create_sample_matrix = Inr (5 / 2)"
  by (simp add: np_max_abs_def create_sample_matrix_value)

text \<open>
  Claim C6. On the sample matrix with \<^verbatim>\<open>num_bits = 8\<close> the scale is the \<^verbatim>\<open>float32\<close>
  rounding of \<open>2.5 / 127\<close>, which is 0.019685 to six decimal places, and row 0 of the
  codes is \<open>[5, -25, 0, 51]\<close>.
\<close>

theorem worked_example:
  "\<exists>codes. quantize_symmetric cast create_sample_matrix 8 = Inr (codes, Fin (rne32 (2.5 / 127)))
     \<and> codes ! 0 = [PyInt 5, PyInt (- 25), PyInt 0, PyInt 51]
     \<and> rne32 (2.5 / 127) = 10568325 / 2 ^ 29
     \<and> \<bar>rne32 (2.5 / 127) - 0.019685\<bar> < (0.0000005 :: real)
     \<and> \<bar>rne32 (2.5 / 127) - 2.5 / 127\<bar> < (0.000000001 :: real)"
proof -
  have lo: "127 / 2 ^ 126 \<le> (5 / 2 :: real)" by simp
  have hi: "(5 / 2 :: real) < 2 ^ 128" by simp
  have s: "rne32 (5 / 2 / 127) = 10568325 / 536870912"
    by (simp add: fl_eval)
  have q: "quantize_symmetric cast create_sample_matrix 8 =
    Inr (map (map (\<lambda>w. np_clip (sint w) (PyInt (- 127)) (PyInt 127)))
           (rounded_int8 cast create_sample_matrix (Fin (10568325 / 536870912))),
         Fin (10568325 / 536870912))"
    using quantize_symmetric_8 [OF sample_max lo hi, of cast] by (simp only: s)
  have r: "map (map (\<lambda>w. np_clip (sint w) (PyInt (- 127)) (PyInt 127)))
           (rounded_int8 cast create_sample_matrix (Fin (10568325 / 536870912))) ! 0 =
        [PyInt 5, PyInt (- 25), PyInt 0, PyInt 51]"
    by (simp add: rounded_int8_def create_sample_matrix_value c_trunc_def fl_eval)
  have e: "rne32 (2.5 / 127) = 10568325 / 536870912" using s by simp
  have v: "(10568325 / 536870912 :: real) = 10568325 / 2 ^ 29" by simp
  have a: "\<bar>10568325 / 536870912 - 0.019685\<bar> < (0.0000005 :: real)" by simp
  have a': "\<bar>10568325 / 536870912 - 2.5 / 127\<bar> < (0.000000001 :: real)" by simp
  show ?thesis using q r v a a' unfolding e by blast
qed

text \<open>
  Claim C5 as stated fails at \<^verbatim>\<open>num_bits = 1\<close>: \<open>qmax\<close> is 0, the scale is infinite,
  every code is 0 and no error is raised.
\<close>

theorem no_config_error_counterexample:
  "quantize_symmetric cast_x86 [[1, - 2]] 1 = Inr ([[PyInt 0, PyInt 0]], PosInf)"
  by (simp add: eval_defs)

text \<open>
  Claim C4 as stated fails on an all-zero matrix: no error is raised, the scale returned
  is 0 and the codes are the conversion of \<^verbatim>\<open>0 / 0\<close>.
\<close>

theorem zero_matrix_counterexample:
  "quantize_symmetric cast_x86 [[0, 0], [0, 0]] 8 = Inr ([[PyInt 0, PyInt 0], [PyInt 0, PyInt 0]], Fin 0)
   \<and> np_divide 0 (Fin 0) = NaN"
  by (simp add: eval_defs)

text \<open>
  Claim C2 as stated fails in \<^verbatim>\<open>float32\<close>. On \<open>[[30, 15]]\<close> the quotient of 15 rounds
  to 63.5, the code is 64 and the dequantized value is further from 15 than half the
  scale, both for the scale returned and for \<open>30 / 127\<close>. On \<open>[[2 ^ -149]]\<close> the scale
  underflows to 0 and the dequantized value is 0. On the largest \<^verbatim>\<open>float32\<close> the
  product \<open>127 * scale\<close> overflows to infinity.
\<close>

theorem roundtrip_error_8_counterexample:
  "quantize_symmetric cast_x86 [[30, 15]] 8 = Inr ([[PyInt 127, PyInt 64]], Fin (1981561 / 8388608))
   \<and> sint (rounded_int8 cast_x86 [[30, 15]] (Fin (1981561 / 8388608)) ! 0 ! 1) = 64
   \<and> dequantize_symmetric [[PyInt 127, PyInt 64]] (Fin (1981561 / 8388608)) ! 0 ! 1 =
        Fin (1981561 / 131072)
   \<and> \<not> \<bar>15 - 1981561 / 131072\<bar> \<le> (1981561 / 8388608 :: real) / 2
   \<and> \<not> \<bar>15 - 1981561 / 131072\<bar> \<le> (30 / 127 :: real) / 2
   \<and> quantize_symmetric cast_x86 [[1 / 2 ^ 149]] 8 = Inr ([[PyInt 0]], Fin 0)
   \<and> dequantize_symmetric [[PyInt 0]] (Fin 0) = [[Fin 0]]
   \<and> quantize_symmetric cast_x86 [[(2 ^ 24 - 1) * 2 ^ 104]] 8 =
        Inr ([[PyInt 127]], Fin (2113665 * 2 ^ 100))
   \<and> dequantize_symmetric [[PyInt 127]] (Fin (2113665 * 2 ^ 100)) = [[PosInf]]"
  by (simp add: eval_defs dequantize_symmetric_def
      rne32_at [where e = 121] rne32_at [where e = 127])

text \<open>
  Claim C9 as stated fails for a subnormal maximum: on \<open>[[190 * 2 ^ -149, 2 ^ -149]]\<close> the
  scale rounds to \<open>2 ^ -149\<close>, the rounded quotient is 190, which is not an \<^verbatim>\<open>int8\<close>, and
  the code is what the conversion makes of it (-66 on x86-64).
\<close>

theorem clip_is_noop_8_counterexample:
  "quantize_symmetric cast_x86 [[190 / 2 ^ 149, 1 / 2 ^ 149]] 8 =
      Inr ([[PyInt (- 66), PyInt 1]], Fin (1 / 2 ^ 149))
   \<and> np_round (np_divide (190 / 2 ^ 149) (Fin (1 / 2 ^ 149))) = Fin 190
   \<and> sint (rounded_int8 cast_x86 [[190 / 2 ^ 149, 1 / 2 ^ 149]] (Fin (1 / 2 ^ 149)) ! 0 ! 0) = - 66"
  by (simp add: eval_defs)

theorem clip_is_noop_8_witness:
  "np_max_abs [[1, - 2]] = Inr 2 \<and> 127 / 2 ^ 126 \<le> (2 :: real) \<and> (2 :: real) < 2 ^ 128
   \<and> (0 :: nat) < length [[1, - 2 :: real]] \<and> (1 :: nat) < length ([[1, - 2 :: real]] ! 0)
   \<and> quantize_symmetric cast_x86 [[1, - 2]] 8 =
        Inr ([[PyInt 64, PyInt (- 127)]], Fin (2113665 / 134217728))
   \<and> (\<exists>codes s r. quantize_symmetric cast_x86 [[1, - 2]] 8 = Inr (codes, Fin s)
      \<and> s = rne32 (2 / 127)
      \<and> np_round (np_divide ([[1, - 2]] ! 0 ! 1) (Fin s)) = Fin (of_int r)
      \<and> \<bar>r\<bar> \<le> 127
      \<and> sint (rounded_int8 cast_x86 [[1, - 2]] (Fin s) ! 0 ! 1) = r
      \<and> np_clip r (PyInt (- 127)) (PyInt 127) = PyInt r
      \<and> codes ! 0 ! 1 = PyInt r)"
proof -
  have h1: "np_max_abs [[1, - 2]] = Inr 2" by (simp add: np_max_abs_def)
  have h2: "127 / 2 ^ 126 \<le> (2 :: real)" by simp
  have h3: "(2 :: real) < 2 ^ 128" by simp
  have h4: "(0 :: nat) < length [[1, - 2 :: real]]" by simp
  have h5: "(1 :: nat) < length ([[1, - 2 :: real]] ! 0)" by simp
  have v: "quantize_symmetric cast_x86 [[1, - 2]] 8 =
        Inr ([[PyInt 64, PyInt (- 127)]], Fin (2113665 / 134217728))"
    by (simp add: eval_defs)
  show ?thesis
    using h1 h2 h3 h4 h5 v clip_is_noop_8 [OF h1 h2 h3 h4 h5, of cast_x86] by blast
qed

theorem roundtrip_error_8_witness:
  "np_max_abs [[1, - 2]] = Inr 2 \<and> 127 / 2 ^ 126 \<le> (2 :: real) \<and> (2 :: real) \<le> 2 ^ 127
   \<and> quantize_symmetric cast_x86 [[1, - 2]] 8 =
        Inr ([[PyInt 64, PyInt (- 127)]], Fin (2113665 / 134217728))
   \<and> (0 :: nat) < length [[1, - 2 :: real]] \<and> (0 :: nat) < length ([[1, - 2 :: real]] ! 0)
   \<and> [[PyInt 64, PyInt (- 127)]] ! 0 ! 0 =
       PyInt (sint (rounded_int8 cast_x86 [[1, - 2]] (Fin (2113665 / 134217728)) ! 0 ! 0))
   \<and> (\<exists>s r. Fin (2113665 / 134217728) = Fin s \<and> s = rne32 (2 / 127)
      \<and> dequantize_symmetric [[PyInt 64, PyInt (- 127)]] (Fin (2113665 / 134217728)) ! 0 ! 0 = Fin r
      \<and> \<bar>[[1, - 2]] ! 0 ! 0 - r\<bar> \<le> s / 2 + s / 2 ^ 15)"
proof -
  have h1: "np_max_abs [[1, - 2]] = Inr 2" by (simp add: np_max_abs_def)
  have h2: "127 / 2 ^ 126 \<le> (2 :: real)" by simp
  have h3: "(2 :: real) \<le> 2 ^ 127" by simp
  have h4: "quantize_symmetric cast_x86 [[1, - 2]] 8 =
        Inr ([[PyInt 64, PyInt (- 127)]], Fin (2113665 / 134217728))"
    by (simp add: eval_defs)
  have h5: "(0 :: nat) < length [[1, - 2 :: real]]" by simp
  have h6: "(0 :: nat) < length ([[1, - 2 :: real]] ! 0)" by simp
  have h7: "[[PyInt 64, PyInt (- 127)]] ! 0 ! 0 =
       PyInt (sint (rounded_int8 cast_x86 [[1, - 2]] (Fin (2113665 / 134217728)) ! 0 ! 0))"
    by (simp add: eval_defs)
  show ?thesis
    using h1 h2 h3 h4 h5 h6 h7 roundtrip_error_8 [OF h1 h2 h3 h4 h5 h6 h7] by blast
qed

theorem codes_in_qmax_range_witness:
  "(1 :: int) \<le> 8
   \<and> quantize_symmetric cast_x86 [[1, - 2]] 8 =
        Inr ([[PyInt 64, PyInt (- 127)]], Fin (2113665 / 134217728))
   \<and> PyInt (- 127) \<in> set (concat [[PyInt 64, PyInt (- 127)]])
   \<and> (\<exists>k. PyInt (- 127) = PyInt k \<and> - (2 ^ nat (8 - 1) - 1) \<le> k \<and> k \<le> 2 ^ nat (8 - 1) - 1)"
proof -
  have h1: "(1 :: int) \<le> 8" by simp
  have h2: "quantize_symmetric cast_x86 [[1, - 2]] 8 =
        Inr ([[PyInt 64, PyInt (- 127)]], Fin (2113665 / 134217728))"
    by (simp add: eval_defs)
  have h3: "PyInt (- 127) \<in> set (concat [[PyInt 64, PyInt (- 127)]])" by simp
  show ?thesis
    using h1 h2 h3 codes_in_qmax_range [OF h1 h2 h3] by blast
qed

theorem codes_in_int8_range_witness:
  "quantize_symmetric cast_x86 [[255, 128]] 9 = Inr ([[PyInt (- 1), PyInt (- 128)]], Fin 1)
   \<and> PyInt (- 128) \<in> set (concat [[PyInt (- 1), PyInt (- 128)]])
   \<and> - 128 \<le> pynum_val (PyInt (- 128)) \<and> pynum_val (PyInt (- 128)) \<le> 127"
proof -
  have h1: "quantize_symmetric cast_x86 [[255, 128]] 9 = Inr ([[PyInt (- 1), PyInt (- 128)]], Fin 1)"
    by (simp add: eval_defs)
  have h2: "PyInt (- 128) \<in> set (concat [[PyInt (- 1), PyInt (- 128)]])" by simp
  show ?thesis
    using h1 h2 codes_in_int8_range [OF h1 h2] by blast
qed

theorem zero_matrix_not_handled_witness:
  "concat [[0, 0], [0, 0 :: real]] \<noteq> [] \<and> set (concat [[0, 0], [0, 0 :: real]]) = {0}
   \<and> (2 :: int) \<le> 8
   \<and> quantize_symmetric cast_x86 [[0, 0], [0, 0]] 8 =
     Inr (map (map (\<lambda>v. np_clip (sint (cast_x86 NaN)) (PyInt (- (2 ^ nat (8 - 1) - 1)))
                     (PyInt (2 ^ nat (8 - 1) - 1))))
            [[0, 0], [0, 0 :: real]], Fin 0)"
proof -
  have h1: "concat [[0, 0], [0, 0 :: real]] \<noteq> []" by simp
  have h2: "\<forall>v\<in>set (concat [[0, 0], [0, 0 :: real]]). v = 0" by simp
  have h3: "(2 :: int) \<le> 8" by simp
  have h2': "set (concat [[0, 0], [0, 0 :: real]]) = {0}" by simp
  have "(8 :: int) \<le> 1024" by simp
  then have "quantize_symmetric cast_x86 [[0, 0], [0, 0]] 8 =
     Inr (map (map (\<lambda>v. np_clip (sint (cast_x86 NaN)) (PyInt (- (2 ^ nat (8 - 1) - 1)))
                     (PyInt (2 ^ nat (8 - 1) - 1))))
            [[0, 0], [0, 0 :: real]], Fin 0)"
    using zero_matrix_not_handled [OF h1 h2 h3, of cast_x86] by (simp only: if_True)
  then show ?thesis using h1 h2' h3 by blast
qed

theorem no_config_error_witness:
  "(1 :: int) < 2 \<and> concat [[1, - 2 :: real]] \<noteq> []
   \<and> - (2 ^ 1024 - 2 ^ 970) < (1 :: int) - 1
   \<and> (\<exists>codes scale. quantize_symmetric cast_x86 [[1, - 2]] 1 = Inr (codes, scale))"
proof -
  have h1: "(1 :: int) < 2" by simp
  have h2: "concat [[1, - 2 :: real]] \<noteq> []" by simp
  have h3: "- (2 ^ 1024 - 2 ^ 970) < (1 :: int) - 1" by simp
  show ?thesis
    using h1 h2 h3 no_config_error [OF h1 h2, of cast_x86] by blast
qed

section \<open>Properties of the lookup tables\<close>

lemma bind_err_Inr: "bind_err (Inr v) f = f v"
  by (simp add: bind_err_def)

lemma collect_map_Inr:
  assumes "\<And>x. x \<in> set xs \<Longrightarrow> f x = Inr (g x)"
  shows "collect (map f xs) = Inr (map g xs)"
  using assms by (induction xs) simp_all

lemma py_index_nat: "i < length xs \<Longrightarrow> py_index xs (int i) = Inr (xs ! i)"
  by (simp add: py_index_def)

lemma py_index_in_range: "0 \<le> c \<Longrightarrow> c < int (length xs) \<Longrightarrow> py_index xs c = Inr (xs ! nat c)"
  by (simp add: py_index_def)

lemma foldl_plus_sum_list: "foldl (+) a vs = a + sum_list (vs :: real list)"
  by (induction vs arbitrary: a) simp_all

lemma dot_sum_append:
  assumes "length ys = sd"
  shows "dot_sum q (ys @ zs) = dot_sum (take sd q) ys + dot_sum (drop sd q) zs"
  using assms by (simp add: dot_sum_def zip_append2)

lemma dot_sum_concat:
  assumes "\<And>c. c \<in> set cs \<Longrightarrow> length c = sd"
  shows "dot_sum q (concat cs) =
     sum_list (map (\<lambda>i. dot_sum (take sd (drop (i * sd) q)) (cs ! i)) [0..<length cs])"
  using assms
proof (induction cs arbitrary: q)
  case Nil
  then show ?case by (simp add: dot_sum_def)
next
  case (Cons c cs)
  have lc: "length c = sd" using Cons.prems by simp
  have ih: "dot_sum (drop sd q) (concat cs) =
     sum_list (map (\<lambda>i. dot_sum (take sd (drop (i * sd) (drop sd q))) (cs ! i)) [0..<length cs])"
    using Cons.prems by (intro Cons.IH) simp
  have shift: "map (\<lambda>i. dot_sum (take sd (drop (i * sd) q)) ((c # cs) ! i)) [0..<length (c # cs)] =
     dot_sum (take sd q) c #
       map (\<lambda>i. dot_sum (take sd (drop (i * sd) (drop sd q))) (cs ! i)) [0..<length cs]"
    by (simp add: upt_conv_Cons map_Suc_upt [symmetric] add.commute del: upt_Suc)
  show ?case
    using dot_sum_append [OF lc, of q "concat cs"] ih shift by simp
qed


lemma length_concat_uniform:
  assumes "\<And>c. c \<in> set cs \<Longrightarrow> length c = sd"
  shows "length (concat cs) = length cs * sd"
  using assms by (induction cs) simp_all

lemma chunk_length:
  assumes "length query = M * sd" "i < M"
  shows "length (take sd (drop (i * sd) query)) = sd"
proof -
  have "Suc i * sd \<le> M * sd"
    using assms(2) by (intro mult_le_mono1) simp
  then show ?thesis using assms(1) by simp
qed

lemma codes_in_rangeD:
  assumes "codes_in_range codebooks row"
  shows "length row = length codebooks"
    and "i < length codebooks \<Longrightarrow> 0 \<le> row ! i \<and> row ! i < int (length (codebooks ! i))"
  using assms by (simp_all add: codes_in_range_def list_all2_conv_all_nth)

lemma centroids_have_dimD:
  assumes "centroids_have_dim sd codebooks" "i < length codebooks" "c \<in> set (codebooks ! i)"
  shows "length c = sd"
  using assms by (auto simp: centroids_have_dim_def list_all_iff)

lemma lookup_tables_Inr:
  assumes "length query = M * sd" "length codebooks = M" "centroids_have_dim sd codebooks"
  shows "lookup_tables M sd query codebooks =
     Inr (map (\<lambda>i. map (dot_sum (take sd (drop (i * sd) query))) (codebooks ! i)) [0..<M])"
  unfolding lookup_tables_def
proof (rule collect_map_Inr)
  fix i assume "i \<in> set [0..<M]"
  then have i: "i < M" by simp
  have q: "py_index (query_subs M sd query) (int i) = Inr (take sd (drop (i * sd) query))"
    using i by (simp add: py_index_nat query_subs_def py_slice_def)
  have cb: "py_index codebooks (int i) = Inr (codebooks ! i)"
    using i assms(2) by (simp add: py_index_nat)
  have "list_all (\<lambda>c. length c = length (take sd (drop (i * sd) query))) (codebooks ! i)"
    unfolding list_all_iff chunk_length [OF assms(1) i]
    using centroids_have_dimD [OF assms(3)] i assms(2) by blast
  then have "np_dot_T (take sd (drop (i * sd) query)) (codebooks ! i) =
      Inr (map (dot_sum (take sd (drop (i * sd) query))) (codebooks ! i))"
    by (simp add: np_dot_T_def)
  then show "bind_err (py_index (query_subs M sd query) (int i))
        (\<lambda>q. bind_err (py_index codebooks (int i)) (np_dot_T q)) =
       Inr (map (dot_sum (take sd (drop (i * sd) query))) (codebooks ! i))"
    by (simp add: q cb bind_err_Inr)
qed

lemma approx_dot_Inr:
  assumes "length codebooks = M" "r < length pq_codes" "codes_in_range codebooks (pq_codes ! r)"
  shows "approx_dot M (map (\<lambda>i. map (dot_sum (qs i)) (codebooks ! i)) [0..<M]) pq_codes r =
     Inr (sum_list (map (\<lambda>i. dot_sum (qs i) (codebooks ! i ! nat (pq_codes ! r ! i))) [0..<M]))"
proof -
  let ?T = "map (\<lambda>i. map (dot_sum (qs i)) (codebooks ! i)) [0..<M]"
  have "collect (map (\<lambda>i.
          bind_err (py_index ?T (int i)) (\<lambda>t.
          bind_err (py_index pq_codes (int r)) (\<lambda>row.
          bind_err (py_index row (int i)) (\<lambda>c. py_index t c)))) [0..<M]) =
      Inr (map (\<lambda>i. dot_sum (qs i) (codebooks ! i ! nat (pq_codes ! r ! i))) [0..<M])"
  proof (rule collect_map_Inr)
    fix i assume "i \<in> set [0..<M]"
    then have i: "i < M" by simp
    have t: "py_index ?T (int i) = Inr (map (dot_sum (qs i)) (codebooks ! i))"
      using i by (simp add: py_index_nat)
    have row: "py_index pq_codes (int r) = Inr (pq_codes ! r)"
      using assms(2) by (simp add: py_index_nat)
    have len: "length (pq_codes ! r) = M"
      using codes_in_rangeD(1) [OF assms(3)] assms(1) by simp
    have c: "py_index (pq_codes ! r) (int i) = Inr (pq_codes ! r ! i)"
      using i len by (simp add: py_index_nat)
    have rng: "0 \<le> pq_codes ! r ! i" "pq_codes ! r ! i < int (length (codebooks ! i))"
      using codes_in_rangeD(2) [OF assms(3), of i] i assms(1) by simp_all
    then have n: "nat (pq_codes ! r ! i) < length (codebooks ! i)" by linarith
    have "py_index (map (dot_sum (qs i)) (codebooks ! i)) (pq_codes ! r ! i) =
        Inr (dot_sum (qs i) (codebooks ! i ! nat (pq_codes ! r ! i)))"
      using rng n by (simp add: py_index_in_range)
    then show "bind_err (py_index ?T (int i)) (\<lambda>t.
          bind_err (py_index pq_codes (int r)) (\<lambda>row.
          bind_err (py_index row (int i)) (\<lambda>c. py_index t c))) =
        Inr (dot_sum (qs i) (codebooks ! i ! nat (pq_codes ! r ! i)))"
      by (simp add: t row c bind_err_Inr)
  qed
  then show ?thesis
    by (simp add: approx_dot_def bind_err_Inr foldl_plus_sum_list)
qed


lemma np_hstack_Inr:
  assumes "B \<noteq> []" "\<And>b. b \<in> set B \<Longrightarrow> length b = n"
  shows "np_hstack B = Inr (map (\<lambda>r. concat (map (\<lambda>b'. b' ! r) B)) [0..<n])"
proof (cases B)
  case Nil
  then show ?thesis using assms(1) by simp
next
  case (Cons b bs)
  have "length b = n" using assms(2) Cons by simp
  moreover have "list_all (\<lambda>b'. length b' = n) bs"
    using assms(2) Cons by (simp add: list_all_iff)
  ultimately show ?thesis by (simp add: np_hstack_def Cons)
qed

lemma column_Inr:
  assumes "\<And>row. row \<in> set A \<Longrightarrow> i < length row"
  shows "column A i = Inr (map (\<lambda>row. row ! i) A)"
  unfolding column_def using assms by (intro collect_map_Inr) (simp add: py_index_nat)

lemma gather_Inr:
  assumes "\<And>c. c \<in> set col \<Longrightarrow> 0 \<le> c \<and> c < int (length A)"
  shows "gather A col = Inr (map (\<lambda>c. A ! nat c) col)"
  unfolding gather_def using assms by (intro collect_map_Inr) (simp add: py_index_in_range)

lemma reconstructed_pq_Inr:
  assumes "0 < M" "length codebooks = M"
    and "\<And>row. row \<in> set pq_codes \<Longrightarrow> codes_in_range codebooks row"
  shows "reconstructed_pq M codebooks pq_codes =
     Inr (map (\<lambda>r. concat (map (\<lambda>i. codebooks ! i ! nat (pq_codes ! r ! i)) [0..<M]))
            [0..<length pq_codes])"
proof -
  let ?B = "map (\<lambda>i. map (\<lambda>row. codebooks ! i ! nat (row ! i)) pq_codes) [0..<M]"
  have blocks: "collect (map (\<lambda>i.
          bind_err (py_index codebooks (int i)) (\<lambda>cb.
          bind_err (column pq_codes i) (\<lambda>col. gather cb col))) [0..<M]) = Inr ?B"
  proof (rule collect_map_Inr)
    fix i assume "i \<in> set [0..<M]"
    then have i: "i < M" by simp
    have cb: "py_index codebooks (int i) = Inr (codebooks ! i)"
      using i assms(2) by (simp add: py_index_nat)
    have col: "column pq_codes i = Inr (map (\<lambda>row. row ! i) pq_codes)"
    proof (rule column_Inr)
      fix row assume "row \<in> set pq_codes"
      then have "length row = length codebooks"
        using assms(3) codes_in_rangeD(1) by blast
      then show "i < length row" using i assms(2) by simp
    qed
    have g: "gather (codebooks ! i) (map (\<lambda>row. row ! i) pq_codes) =
        Inr (map (\<lambda>c. codebooks ! i ! nat c) (map (\<lambda>row. row ! i) pq_codes))"
    proof (rule gather_Inr)
      fix c assume "c \<in> set (map (\<lambda>row. row ! i) pq_codes)"
      then obtain row where "row \<in> set pq_codes" "c = row ! i" by auto
      then show "0 \<le> c \<and> c < int (length (codebooks ! i))"
        using assms(3) codes_in_rangeD(2) [of codebooks row i] i assms(2) by simp
    qed
    show "bind_err (py_index codebooks (int i)) (\<lambda>cb.
          bind_err (column pq_codes i) (\<lambda>col. gather cb col)) =
        Inr (map (\<lambda>row. codebooks ! i ! nat (row ! i)) pq_codes)"
      by (simp add: cb col g bind_err_Inr comp_def)
  qed
  have ne: "?B \<noteq> []" using assms(1) by simp
  have "np_hstack ?B = Inr (map (\<lambda>r. concat (map (\<lambda>b'. b' ! r) ?B)) [0..<length pq_codes])"
    using ne by (rule np_hstack_Inr) auto
  moreover have "map (\<lambda>r. concat (map (\<lambda>b'. b' ! r) ?B)) [0..<length pq_codes] =
      map (\<lambda>r. concat (map (\<lambda>i. codebooks ! i ! nat (pq_codes ! r ! i)) [0..<M]))
        [0..<length pq_codes]"
    by (intro map_cong refl arg_cong [where f = concat]) (simp add: comp_def)
  ultimately show ?thesis
    by (simp add: reconstructed_pq_def blocks bind_err_Inr)
qed

lemma direct_dot_of_row:
  assumes "length query = M * sd" "\<And>i. i < M \<Longrightarrow> length (f i) = sd"
  shows "np_dot query (concat (map f [0..<M])) =
     Inr (sum_list (map (\<lambda>i. dot_sum (take sd (drop (i * sd) query)) (f i)) [0..<M]))"
proof -
  have u: "\<And>c. c \<in> set (map f [0..<M]) \<Longrightarrow> length c = sd"
    using assms(2) by auto
  have "length (concat (map f [0..<M])) = length (map f [0..<M]) * sd"
    using u by (rule length_concat_uniform)
  then have len: "length query = length (concat (map f [0..<M]))"
    using assms(1) by simp
  have "dot_sum query (concat (map f [0..<M])) =
     sum_list (map (\<lambda>i. dot_sum (take sd (drop (i * sd) query)) (map f [0..<M] ! i))
       [0..<length (map f [0..<M])])"
    using u by (rule dot_sum_concat)
  also have "\<dots> = sum_list (map (\<lambda>i. dot_sum (take sd (drop (i * sd) query)) (f i)) [0..<M])"
    by (intro arg_cong [where f = sum_list] map_cong) simp_all
  finally show ?thesis using len by (simp add: np_dot_def)
qed

text \<open>
  Claim C1. For a query of \<open>M * sub_dim\<close> components, \<open>M\<close> codebooks whose centroids
  have \<open>sub_dim\<close> components and rows of codes that hold one index per codebook, each
  within its codebook: the tables are built, every row is reconstructed, and the sum of
  the table entries selected by a row of codes is the dot product of the query with the
  reconstructed row. On real numbers the two are equal; the order of a floating-point
  summation is outside the model.
\<close>

theorem lookup_equals_direct_dot:
  assumes "0 < M" and "length query = M * sub_dim" and "length codebooks = M"
    and "centroids_have_dim sub_dim codebooks"
    and "length pq_codes = n" and "list_all (codes_in_range codebooks) pq_codes"
  shows "\<exists>tables dps recon.
      lookup_tables M sub_dim query codebooks = Inr tables
    \<and> dot_products n M tables pq_codes = Inr dps
    \<and> reconstructed_pq M codebooks pq_codes = Inr recon
    \<and> length dps = n \<and> length recon = n
    \<and> (\<forall>r<n. np_dot query (recon ! r) = Inr (dps ! r))"
proof -
  define qs where "qs i = take sub_dim (drop (i * sub_dim) query)" for i
  define tables where "tables = map (\<lambda>i. map (dot_sum (qs i)) (codebooks ! i)) [0..<M]"
  define dp where
    "dp r = sum_list (map (\<lambda>i. dot_sum (qs i) (codebooks ! i ! nat (pq_codes ! r ! i))) [0..<M])" for r
  define recon where
    "recon = map (\<lambda>r. concat (map (\<lambda>i. codebooks ! i ! nat (pq_codes ! r ! i)) [0..<M])) [0..<n]"
  have rows: "codes_in_range codebooks row" if "row \<in> set pq_codes" for row
    using assms(6) that by (simp add: list_all_iff)
  have t: "lookup_tables M sub_dim query codebooks = Inr tables"
    unfolding tables_def qs_def using assms(2,3,4) by (rule lookup_tables_Inr)
  have "approx_dot M tables pq_codes r = Inr (dp r)" if "r \<in> set [0..<n]" for r
    unfolding tables_def dp_def using assms(3)
  proof (rule approx_dot_Inr)
    show "r < length pq_codes" using that assms(5) by simp
    then show "codes_in_range codebooks (pq_codes ! r)" by (intro rows nth_mem)
  qed
  then have d: "dot_products n M tables pq_codes = Inr (map dp [0..<n])"
    unfolding dot_products_def by (rule collect_map_Inr)
  have rc: "reconstructed_pq M codebooks pq_codes = Inr recon"
    unfolding recon_def assms(5) [symmetric] using assms(1,3) rows by (rule reconstructed_pq_Inr)
  have "np_dot query (recon ! r) = Inr (map dp [0..<n] ! r)" if r: "r < n" for r
  proof -
    have "length (codebooks ! i ! nat (pq_codes ! r ! i)) = sub_dim" if i: "i < M" for i
    proof -
      have cr: "codes_in_range codebooks (pq_codes ! r)"
        using r assms(5) by (intro rows nth_mem) simp
      have "0 \<le> pq_codes ! r ! i" "pq_codes ! r ! i < int (length (codebooks ! i))"
        using codes_in_rangeD(2) [OF cr, of i] i assms(3) by simp_all
      then have "nat (pq_codes ! r ! i) < length (codebooks ! i)" by linarith
      then have "codebooks ! i ! nat (pq_codes ! r ! i) \<in> set (codebooks ! i)" by simp
      with assms(4) show ?thesis
        using i assms(3) by (intro centroids_have_dimD [of sub_dim codebooks i]) simp_all
    qed
    with assms(2) have "np_dot query (concat (map (\<lambda>i. codebooks ! i ! nat (pq_codes ! r ! i)) [0..<M])) =
        Inr (sum_list (map (\<lambda>i. dot_sum (take sub_dim (drop (i * sub_dim) query))
              (codebooks ! i ! nat (pq_codes ! r ! i))) [0..<M]))"
      by (rule direct_dot_of_row)
    then show ?thesis using r by (simp add: recon_def dp_def qs_def)
  qed
  moreover have "length (map dp [0..<n]) = n" "length recon = n"
    by (simp_all add: recon_def)
  ultimately show ?thesis using t d rc by blast
qed

lemmas pq_eval = py_index_def bind_err_def dot_products_def approx_dot_def Let_def upt_rec

theorem lookup_equals_direct_dot_witness:
  "(0 :: nat) < 2
   \<and> length [0.2, - 0.1, 0.5, 1.0 :: real] = 2 * 2
   \<and> length [[[2.5, - 1.2], [0.9, 1.5], [0.1, - 0.5]], [[0.7, - 0.3], [- 2.0, 0.2], [0.0, 1.0 :: real]]] = 2
   \<and> centroids_have_dim 2
        [[[2.5, - 1.2], [0.9, 1.5], [0.1, - 0.5]], [[0.7, - 0.3], [- 2.0, 0.2], [0.0, 1.0]]]
   \<and> length [[2, 2], [0, 0], [1, 1 :: int]] = 3
   \<and> list_all (codes_in_range
        [[[2.5, - 1.2], [0.9, 1.5], [0.1, - 0.5]], [[0.7, - 0.3], [- 2.0, 0.2], [0.0, 1.0]]])
        [[2, 2], [0, 0], [1, 1]]
   \<and> dot_products 3 2 [[0.62, 0.03, 0.07], [0.05, - 0.8, 1.0]] [[2, 2], [0, 0], [1, 1]] =
        Inr [1.07, 0.67, - 0.77]
   \<and> (\<exists>tables dps recon.
        lookup_tables 2 2 [0.2, - 0.1, 0.5, 1.0]
          [[[2.5, - 1.2], [0.9, 1.5], [0.1, - 0.5]], [[0.7, - 0.3], [- 2.0, 0.2], [0.0, 1.0]]] = Inr tables
      \<and> dot_products 3 2 tables [[2, 2], [0, 0], [1, 1]] = Inr dps
      \<and> reconstructed_pq 2
          [[[2.5, - 1.2], [0.9, 1.5], [0.1, - 0.5]], [[0.7, - 0.3], [- 2.0, 0.2], [0.0, 1.0]]]
          [[2, 2], [0, 0], [1, 1]] = Inr recon
      \<and> length dps = 3 \<and> length recon = 3
      \<and> (\<forall>r<3. np_dot [0.2, - 0.1, 0.5, 1.0] (recon ! r) = Inr (dps ! r)))"
proof -
  have h1: "(0 :: nat) < 2" by simp
  have h2: "length [0.2, - 0.1, 0.5, 1.0 :: real] = 2 * 2" by simp
  have h3: "length [[[2.5, - 1.2], [0.9, 1.5], [0.1, - 0.5]], [[0.7, - 0.3], [- 2.0, 0.2], [0.0, 1.0 :: real]]] = 2"
    by simp
  have h4: "centroids_have_dim 2
        [[[2.5, - 1.2], [0.9, 1.5], [0.1, - 0.5]], [[0.7, - 0.3], [- 2.0, 0.2], [0.0, 1.0]]]"
    by (simp add: centroids_have_dim_def)
  have h5: "length [[2, 2], [0, 0], [1, 1 :: int]] = 3" by simp
  have h6: "list_all (codes_in_range
        [[[2.5, - 1.2], [0.9, 1.5], [0.1, - 0.5]], [[0.7, - 0.3], [- 2.0, 0.2], [0.0, 1.0 :: real]]])
        [[2, 2], [0, 0], [1, 1]]"
    by (simp add: codes_in_range_def)
  have v: "dot_products 3 2 [[0.62, 0.03, 0.07], [0.05, - 0.8, 1.0]] [[2, 2], [0, 0], [1, 1]] =
        Inr [1.07, 0.67, - 0.77]"
    by (simp add: pq_eval)
  show ?thesis
    using h1 h2 h3 h4 h5 h6 v lookup_equals_direct_dot [OF h1 h2 h3 h4 h5 h6] by blast
qed

section \<open>Properties of the nearest-centroid assignment\<close>

lemma argmin_less: "ds \<noteq> [] \<Longrightarrow> argmin ds < length ds"
  by (induction ds) (auto simp: Let_def)

lemma argmin_le: "j < length ds \<Longrightarrow> ds ! argmin ds \<le> ds ! j"
proof (induction ds arbitrary: j)
  case Nil
  then show ?case by simp
next
  case (Cons d ds)
  show ?case
  proof (cases "ds = []")
    case True
    then show ?thesis using Cons.prems by simp
  next
    case False
    show ?thesis
    proof (cases j)
      case 0
      then show ?thesis using False by (simp add: Let_def)
    next
      case (Suc j')
      then have "ds ! argmin ds \<le> ds ! j'" using Cons.prems by (intro Cons.IH) simp
      then show ?thesis using False Suc by (auto simp: Let_def)
    qed
  qed
qed

lemma argmin_first: "j < argmin ds \<Longrightarrow> ds ! argmin ds < ds ! j"
proof (induction ds arbitrary: j)
  case Nil
  then show ?case by simp
next
  case (Cons d ds)
  show ?case
  proof (cases "ds = []")
    case True
    then show ?thesis using Cons.prems by simp
  next
    case False
    show ?thesis
    proof (cases "d \<le> ds ! argmin ds")
      case True
      then show ?thesis using False Cons.prems by (simp add: Let_def)
    next
      case nle: False
      show ?thesis
      proof (cases j)
        case 0
        then show ?thesis using False nle by (simp add: Let_def)
      next
        case (Suc j')
        then have "j' < argmin ds" using Cons.prems False nle by (simp add: Let_def)
        then have "ds ! argmin ds < ds ! j'" by (rule Cons.IH)
        then show ?thesis using False nle Suc by (simp add: Let_def)
      qed
    qed
  qed
qed

lemma l2_dist_less_iff: "l2_dist s a < l2_dist s b \<longleftrightarrow> sq_dist s a < sq_dist s b"
  by (simp add: l2_dist_def)

lemma l2_dist_eq_iff: "l2_dist s a = l2_dist s b \<longleftrightarrow> sq_dist s a = sq_dist s b"
  by (simp add: l2_dist_def)

lemma assign_less: "cb \<noteq> [] \<Longrightarrow> assign s cb < length cb"
  using argmin_less [of "map (sq_dist s) cb"] by (simp add: assign_def)

lemma assign_nearest_lowest:
  assumes "cb \<noteq> []"
  shows "nearest_lowest cb s (assign s cb)"
proof -
  let ?ds = "map (sq_dist s) cb"
  have k: "assign s cb < length cb" using assms by (rule assign_less)
  have le: "\<not> l2_dist s (cb ! j) < l2_dist s (cb ! assign s cb)" if "j < length cb" for j
  proof -
    have "?ds ! argmin ?ds \<le> ?ds ! j" using that by (intro argmin_le) simp
    then show ?thesis using that k by (simp add: assign_def l2_dist_less_iff)
  qed
  have first: "assign s cb \<le> j"
    if "j < length cb" "l2_dist s (cb ! j) = l2_dist s (cb ! assign s cb)" for j
  proof (rule ccontr)
    assume "\<not> assign s cb \<le> j"
    then have lt: "j < argmin ?ds" by (simp add: assign_def)
    then have "?ds ! argmin ?ds < ?ds ! j" by (rule argmin_first)
    then show False using that k by (simp add: assign_def l2_dist_eq_iff)
  qed
  show ?thesis
    unfolding nearest_lowest_def using k le first by blast
qed


lemma np_stack_axis1_Inr:
  assumes "cols \<noteq> []" "\<And>c. c \<in> set cols \<Longrightarrow> length c = n"
  shows "np_stack_axis1 cols = Inr (map (\<lambda>r. map (\<lambda>c'. c' ! r) cols) [0..<n])"
proof (cases cols)
  case Nil
  then show ?thesis using assms(1) by simp
next
  case (Cons c cs)
  have "length c = n" using assms(2) Cons by simp
  moreover have "list_all (\<lambda>c'. length c' = n) cs"
    using assms(2) Cons by (simp add: list_all_iff)
  ultimately show ?thesis by (simp add: np_stack_axis1_def Cons)
qed

lemma indices_nearest:
  assumes "centers \<noteq> []" "k < length (flat_data data)"
  shows "indices centers data ! k = int (assign (flat_data data ! k) centers)"
    and "nearest_lowest centers (flat_data data ! k) (assign (flat_data data ! k) centers)"
  using assms by (simp_all add: indices_def predict_def assign_nearest_lowest)

lemma pq_codes_of_Inr:
  assumes "0 < M"
  shows "pq_codes_of fit M sub_dim matrix =
     Inr (map (\<lambda>r. map (\<lambda>c'. c' ! r) (codes_of fit M sub_dim matrix)) [0..<length matrix])"
  unfolding pq_codes_of_def
proof (rule np_stack_axis1_Inr)
  show "codes_of fit M sub_dim matrix \<noteq> []"
    using assms by (simp add: codes_of_def subspaces_def)
  show "length c = length matrix" if "c \<in> set (codes_of fit M sub_dim matrix)" for c
    using that by (auto simp: codes_of_def subspaces_def predict_def)
qed

lemma codes_of_nth:
  assumes "i < M" "r < length matrix"
  shows "codes_of fit M sub_dim matrix ! i ! r =
     int (assign (py_slice (matrix ! r) (i * sub_dim) ((i + 1) * sub_dim))
            (codebooks_of fit M sub_dim matrix ! i))"
  using assms by (simp add: codes_of_def codebooks_of_def subspaces_def predict_def)

text \<open>
  Claim C7. Every index that the VQ encoding gives to a scalar, and every index that the
  PQ encoding gives to the sub-vector of a row in a subspace, is the index of a nearest
  centroid of that sample in the codebook used: no centroid of the codebook is strictly
  closer in L2 distance, and among the centroids at the least distance it is the one
  with the lowest index. The codebooks are not empty.
\<close>

theorem nearest_centroid_assignment:
  assumes "centers \<noteq> []" and "0 < M"
    and "list_all (\<lambda>cb. cb \<noteq> []) (codebooks_of fit M sub_dim matrix)"
  shows "(length (indices centers data) = length (flat_data data)
      \<and> (\<forall>k<length (flat_data data). \<exists>a. indices centers data ! k = int a
            \<and> nearest_lowest centers (flat_data data ! k) a))
    \<and> (\<exists>pq. pq_codes_of fit M sub_dim matrix = Inr pq
      \<and> length pq = length matrix
      \<and> (\<forall>r<length matrix. length (pq ! r) = M
          \<and> (\<forall>i<M. \<exists>a. pq ! r ! i = int a
              \<and> nearest_lowest (codebooks_of fit M sub_dim matrix ! i)
                   (py_slice (matrix ! r) (i * sub_dim) ((i + 1) * sub_dim)) a)))"
proof (intro conjI)
  show "length (indices centers data) = length (flat_data data)"
    by (simp add: indices_def predict_def)
  show "\<forall>k<length (flat_data data). \<exists>a. indices centers data ! k = int a
            \<and> nearest_lowest centers (flat_data data ! k) a"
    using indices_nearest [OF assms(1)] by blast
  define pq where "pq = map (\<lambda>r. map (\<lambda>c'. c' ! r) (codes_of fit M sub_dim matrix)) [0..<length matrix]"
  have lc: "length (codes_of fit M sub_dim matrix) = M"
    by (simp add: codes_of_def subspaces_def)
  have lb: "length (codebooks_of fit M sub_dim matrix) = M"
    by (simp add: codebooks_of_def subspaces_def)
  have p: "pq_codes_of fit M sub_dim matrix = Inr pq"
    unfolding pq_def using assms(2) by (rule pq_codes_of_Inr)
  have len: "length pq = length matrix" by (simp add: pq_def)
  have rows: "length (pq ! r) = M
          \<and> (\<forall>i<M. \<exists>a. pq ! r ! i = int a
              \<and> nearest_lowest (codebooks_of fit M sub_dim matrix ! i)
                   (py_slice (matrix ! r) (i * sub_dim) ((i + 1) * sub_dim)) a)"
    if r: "r < length matrix" for r
  proof (intro conjI allI impI)
    show "length (pq ! r) = M" using r lc by (simp add: pq_def)
    fix i assume i: "i < M"
    let ?cb = "codebooks_of fit M sub_dim matrix ! i"
    let ?s = "py_slice (matrix ! r) (i * sub_dim) ((i + 1) * sub_dim)"
    have "?cb \<in> set (codebooks_of fit M sub_dim matrix)" using i lb by simp
    then have ne: "?cb \<noteq> []" using assms(3) by (simp add: list_all_iff)
    have "pq ! r ! i = codes_of fit M sub_dim matrix ! i ! r"
      using r i lc by (simp add: pq_def)
    then have "pq ! r ! i = int (assign ?s ?cb)"
      using codes_of_nth [OF i r] by simp
    moreover have "nearest_lowest ?cb ?s (assign ?s ?cb)"
      using ne by (rule assign_nearest_lowest)
    ultimately show "\<exists>a. pq ! r ! i = int a \<and> nearest_lowest ?cb ?s a" by blast
  qed
  show "\<exists>pq. pq_codes_of fit M sub_dim matrix = Inr pq
      \<and> length pq = length matrix
      \<and> (\<forall>r<length matrix. length (pq ! r) = M
          \<and> (\<forall>i<M. \<exists>a. pq ! r ! i = int a
              \<and> nearest_lowest (codebooks_of fit M sub_dim matrix ! i)
                   (py_slice (matrix ! r) (i * sub_dim) ((i + 1) * sub_dim)) a))"
    using p len rows by blast
qed

lemmas vq_eval = indices_def predict_def assign_def sq_dist_def flat_data_def create_sample_matrix_value
  power2_eq_square Let_def

lemmas pq_encode_eval = pq_codes_of_def codes_of_def codebooks_of_def subspaces_def py_slice_def
  np_stack_axis1_def predict_def assign_def sq_dist_def create_sample_matrix_value
  power2_eq_square Let_def upt_rec

theorem nearest_centroid_assignment_witness:
  "[[1.025], [- 1.6], [2.5], [- 0.1 :: real]] \<noteq> []
   \<and> (0 :: nat) < 2
   \<and> list_all (\<lambda>cb. cb \<noteq> []) (codebooks_of rev 2 2 create_sample_matrix)
   \<and> indices [[1.025], [- 1.6], [2.5], [- 0.1]] create_sample_matrix =
        [3, 3, 3, 0, 2, 1, 0, 3, 0, 0, 1, 3]
   \<and> pq_codes_of rev 2 2 create_sample_matrix = Inr [[2, 2], [1, 1], [0, 0]]
   \<and> length (indices [[1.025], [- 1.6], [2.5], [- 0.1]] create_sample_matrix) =
        length (flat_data create_sample_matrix)
   \<and> (\<exists>a. indices [[1.025], [- 1.6], [2.5], [- 0.1]] create_sample_matrix ! 3 = int a
        \<and> nearest_lowest [[1.025], [- 1.6], [2.5], [- 0.1]] (flat_data create_sample_matrix ! 3) a)
   \<and> (\<exists>pq. pq_codes_of rev 2 2 create_sample_matrix = Inr pq
      \<and> length pq = length create_sample_matrix
      \<and> (\<forall>r<length create_sample_matrix. length (pq ! r) = 2
          \<and> (\<forall>i<2. \<exists>a. pq ! r ! i = int a
              \<and> nearest_lowest (codebooks_of rev 2 2 create_sample_matrix ! i)
                   (py_slice (create_sample_matrix ! r) (i * 2) ((i + 1) * 2)) a)))"
proof -
  have h1: "[[1.025], [- 1.6], [2.5], [- 0.1 :: real]] \<noteq> []" by simp
  have h2: "(0 :: nat) < 2" by simp
  have h3: "list_all (\<lambda>cb. cb \<noteq> []) (codebooks_of rev 2 2 create_sample_matrix)"
    by (simp add: codebooks_of_def subspaces_def create_sample_matrix_value upt_rec)
  have v1: "indices [[1.025], [- 1.6], [2.5], [- 0.1]] create_sample_matrix =
        [3, 3, 3, 0, 2, 1, 0, 3, 0, 0, 1, 3]"
    by (simp add: vq_eval)
  have v2: "pq_codes_of rev 2 2 create_sample_matrix = Inr [[2, 2], [1, 1], [0, 0]]"
    by (simp add: pq_encode_eval)
  have k: "(3 :: nat) < length (flat_data create_sample_matrix)"
    by (simp add: flat_data_def create_sample_matrix_value)
  note t = nearest_centroid_assignment [OF h1 h2 h3, of create_sample_matrix]
  from t k have "\<exists>a. indices [[1.025], [- 1.6], [2.5], [- 0.1]] create_sample_matrix ! 3 = int a
        \<and> nearest_lowest [[1.025], [- 1.6], [2.5], [- 0.1]] (flat_data create_sample_matrix ! 3) a"
    by blast
  with h1 h2 h3 v1 v2 t show ?thesis by blast
qed


section \<open>Properties of vector quantization\<close>

lemma slice_length:
  assumes "length flat = n * cols" "r < n"
  shows "length (py_slice flat (r * cols) ((r + 1) * cols)) = cols"
proof -
  have "Suc r * cols \<le> n * cols"
    using assms(2) by (intro mult_le_mono1) simp
  then show ?thesis using assms(1) by (simp add: py_slice_def)
qed

lemma slice_subset: "set (py_slice flat a b) \<subseteq> set flat"
  unfolding py_slice_def using set_take_subset set_drop_subset by fast

lemma shape_of_rect:
  assumes "list_all (\<lambda>row. length row = cols) A"
  shows "shape_of A = (length A, if A = [] then 0 else cols)"
  using assms by (cases A) (simp_all add: shape_of_def)

lemma np_reshape_Inr:
  assumes "length flat = n * cols"
  shows "np_reshape flat (n, cols) =
     Inr (map (\<lambda>r. py_slice flat (r * cols) ((r + 1) * cols)) [0..<n])"
  using assms by (simp add: np_reshape_def)

lemma reshaped_shape:
  assumes "length flat = n * c" "n = 0 \<longrightarrow> c = 0"
  shows "shape_of (map (\<lambda>r. py_slice flat (r * c) ((r + 1) * c)) [0..<n]) = (n, c)"
proof (cases n)
  case 0
  then show ?thesis using assms(2) by (simp add: shape_of_def)
next
  case (Suc m)
  have "length (py_slice flat (0 * c) ((0 + 1) * c)) = c"
    using assms(1) by (intro slice_length [of flat n]) (simp_all add: Suc)
  then show ?thesis
    by (simp add: shape_of_def Suc upt_conv_Cons del: upt_Suc)
qed

lemma reconstructed_flat_Inr:
  assumes "centers \<noteq> []" "list_all (\<lambda>c. length c = 1) centers"
  shows "reconstructed_flat centers data =
     Inr (map (\<lambda>k. codebook centers ! nat k) (indices centers data))"
  unfolding reconstructed_flat_def
proof (rule gather_Inr)
  fix k assume "k \<in> set (indices centers data)"
  then obtain s where k: "k = int (assign s centers)"
    by (auto simp: indices_def predict_def)
  have "length (codebook centers) = length centers * 1"
    unfolding codebook_def using assms(2) by (intro length_concat_uniform) (simp add: list_all_iff)
  moreover have "assign s centers < length centers" using assms(1) by (rule assign_less)
  ultimately show "0 \<le> k \<and> k < int (length (codebook centers))" using k by simp
qed

text \<open>
  Claim C10. For a rectangular matrix and a trained codebook (at least one centroid,
  each a single value), encoding and decoding succeed; the index matrix and the
  reconstructed matrix have the shape of the input, row by row, and every element of
  the reconstructed matrix is a value of the codebook.
\<close>

theorem vq_roundtrip_shape_and_values:
  assumes "centers \<noteq> []" and "list_all (\<lambda>c. length c = 1) centers"
    and "list_all (\<lambda>row. length row = cols) data"
  shows "\<exists>I R. index_matrix centers data = Inr I \<and> shape_of I = shape_of data
      \<and> reconstructed centers data = Inr R
      \<and> shape_of R = shape_of data
      \<and> length R = length data
      \<and> list_all2 (\<lambda>row row'. length row = length row') R data
      \<and> list_all (list_all (\<lambda>v. v \<in> set (codebook centers))) R"
proof -
  define n where "n = length data"
  define c where "c = (if data = [] then 0 else cols)"
  define flat where "flat = map (\<lambda>k. codebook centers ! nat k) (indices centers data)"
  define R where "R = map (\<lambda>r. py_slice flat (r * c) ((r + 1) * c)) [0..<n]"
  define I where "I = map (\<lambda>r. py_slice (indices centers data) (r * c) ((r + 1) * c)) [0..<n]"
  have sh: "shape_of data = (n, c)"
    unfolding n_def c_def using assms(3) by (rule shape_of_rect)
  have rows: "length row = c" if "row \<in> set data" for row
    using that assms(3) by (auto simp: c_def list_all_iff)
  have "length (concat data) = length data * c"
    using rows by (rule length_concat_uniform)
  then have li: "length (indices centers data) = n * c"
    by (simp add: indices_def predict_def flat_data_def n_def)
  then have lf: "length flat = n * c" by (simp add: flat_def)
  have z: "n = 0 \<longrightarrow> c = 0" by (simp add: n_def c_def)
  have im: "index_matrix centers data = Inr I"
    unfolding index_matrix_def sh I_def using li by (rule np_reshape_Inr)
  have ish: "shape_of I = shape_of data"
    unfolding sh I_def using li z by (rule reshaped_shape)
  have rf: "reconstructed_flat centers data = Inr flat"
    unfolding flat_def using assms(1,2) by (rule reconstructed_flat_Inr)
  have "np_reshape flat (n, c) = Inr R"
    unfolding R_def using lf by (rule np_reshape_Inr)
  then have rc: "reconstructed centers data = Inr R"
    by (simp add: reconstructed_def rf bind_err_def sh)
  have rsh: "shape_of R = shape_of data"
    unfolding sh R_def using lf z by (rule reshaped_shape)
  have len: "length R = length data" by (simp add: R_def n_def)
  have "length (R ! r) = length (data ! r)" if "r < n" for r
  proof -
    have "length (R ! r) = c"
      using that slice_length [OF lf that] by (simp add: R_def)
    moreover have "length (data ! r) = c"
      using that by (intro rows nth_mem) (simp add: n_def)
    ultimately show ?thesis by simp
  qed
  then have same: "list_all2 (\<lambda>row row'. length row = length row') R data"
    using len by (simp add: list_all2_conv_all_nth n_def)
  have fl: "set flat \<subseteq> set (codebook centers)"
  proof
    fix v assume "v \<in> set flat"
    then obtain k where "k \<in> set (indices centers data)" "v = codebook centers ! nat k"
      by (auto simp: flat_def)
    moreover from this obtain s where "k = int (assign s centers)"
      by (auto simp: indices_def predict_def)
    moreover have "assign s centers < length centers" using assms(1) by (rule assign_less)
    moreover have "length (codebook centers) = length centers * 1"
      unfolding codebook_def using assms(2) by (intro length_concat_uniform) (simp add: list_all_iff)
    ultimately show "v \<in> set (codebook centers)" by simp
  qed
  have vals: "list_all (list_all (\<lambda>v. v \<in> set (codebook centers))) R"
    unfolding list_all_iff R_def using slice_subset [of flat] fl by auto
  show ?thesis using im ish rc rsh len same vals by blast
qed

theorem vq_roundtrip_shape_and_values_witness:
  "[[1.025], [- 1.6], [2.5], [- 0.1 :: real]] \<noteq> []
   \<and> list_all (\<lambda>c. length c = 1) [[1.025], [- 1.6], [2.5], [- 0.1 :: real]]
   \<and> list_all (\<lambda>row. length row = 4) create_sample_matrix
   \<and> reconstructed [[1.025], [- 1.6], [2.5], [- 0.1]] create_sample_matrix =
        Inr [[- 0.1, - 0.1, - 0.1, 1.025], [2.5, - 1.6, 1.025, - 0.1], [1.025, 1.025, - 1.6, - 0.1]]
   \<and> (\<exists>I R. index_matrix [[1.025], [- 1.6], [2.5], [- 0.1]] create_sample_matrix = Inr I
      \<and> shape_of I = shape_of create_sample_matrix
      \<and> reconstructed [[1.025], [- 1.6], [2.5], [- 0.1]] create_sample_matrix = Inr R
      \<and> shape_of R = shape_of create_sample_matrix
      \<and> length R = length create_sample_matrix
      \<and> list_all2 (\<lambda>row row'. length row = length row') R create_sample_matrix
      \<and> list_all (list_all (\<lambda>v. v \<in> set (codebook [[1.025], [- 1.6], [2.5], [- 0.1]]))) R)"
proof -
  have h1: "[[1.025], [- 1.6], [2.5], [- 0.1 :: real]] \<noteq> []" by simp
  have h2: "list_all (\<lambda>c. length c = 1) [[1.025], [- 1.6], [2.5], [- 0.1 :: real]]" by simp
  have h3: "list_all (\<lambda>row. length row = 4) create_sample_matrix"
    by (simp add: create_sample_matrix_value)
  have i: "indices [[1.025], [- 1.6], [2.5], [- 0.1]] create_sample_matrix =
        [3, 3, 3, 0, 2, 1, 0, 3, 0, 0, 1, 3]"
    by (simp add: vq_eval)
  have s: "shape_of create_sample_matrix = (3, 4)"
    by (simp add: shape_of_def create_sample_matrix_value)
  have v: "reconstructed [[1.025], [- 1.6], [2.5], [- 0.1]] create_sample_matrix =
        Inr [[- 0.1, - 0.1, - 0.1, 1.025], [2.5, - 1.6, 1.025, - 0.1], [1.025, 1.025, - 1.6, - 0.1]]"
    unfolding reconstructed_def reconstructed_flat_def i s
    by (simp add: gather_def codebook_def py_index_def bind_err_def np_reshape_def py_slice_def upt_rec)
  show ?thesis
    using h1 h2 h3 v vq_roundtrip_shape_and_values [OF h1 h2 h3] by blast
qed

end
